theory Spec2Isabelle
  imports Complex_Main "HOL-Library.AList"
begin

section \<open>Configuration trees\<close>

text \<open>
  The builder works on Go values of type \<^verbatim>\<open>interface{}\<close> as the JSON and YAML decoders
  produce them: nil, booleans, numbers, strings, \<^verbatim>\<open>[]interface{}\<close>,
  \<^verbatim>\<open>map[string]interface{}\<close> and, from the YAML decoder only, the
  \<^verbatim>\<open>map[interface{}]interface{}\<close> it builds for a mapping below the top level that has
  a key which is not a string. The type assertions \<^verbatim>\<open>.(map[string]interface{})\<close> of the
  program succeed on \<open>Mapping\<close> and fail on \<open>GeneralMapping\<close>. The program never
  computes with a number, so every numeric scalar is a rational. A Go map is an association
  list whose keys are pairwise distinct; \<open>map_of\<close> reads a key and \<open>AList.update\<close> is the
  assignment \<^verbatim>\<open>m[k] = v\<close>.
\<close>

datatype node =
    Null
  | Boolean bool
  | Number rat
  | Str string
  | Sequence "node list"
  | Mapping "(string \<times> node) list"
  | GeneralMapping "(node \<times> node) list"

type_synonym tree = "(string \<times> node) list"

text \<open>
  A \<^verbatim>\<open>range\<close> over a Go map visits every key once, in an order the language leaves
  open. The order is a parameter of every loop whose map the program has built itself:
  \<open>range_map ord m\<close> are the entries of \<open>m\<close> in the order \<open>ord\<close>, and \<open>visits ord m\<close>
  says that \<open>ord\<close> is an order the runtime may choose.
\<close>

definition range_map :: "'k list \<Rightarrow> ('k \<times> 'v) list \<Rightarrow> ('k \<times> 'v) list" where
  "range_map ord m =
     concat (map (\<lambda>k. case map_of m k of None \<Rightarrow> [] | Some v \<Rightarrow> [(k, v)]) ord)"

definition visits :: "'k list \<Rightarrow> ('k \<times> 'v) list \<Rightarrow> bool" where
  "visits ord m \<longleftrightarrow> distinct ord \<and> set ord = fst ` set m"

section \<open>The string functions of Go's standard library, at separator "/"\<close>

text \<open>Every call of the program passes the one-byte separator or cutset \<^verbatim>\<open>"/"\<close>.\<close>

fun strings_Split :: "string \<Rightarrow> string list" where
  "strings_Split [] = [[]]"
| "strings_Split (c # cs) =
     (if c = CHR ''/'' then [] # strings_Split cs
      else (case strings_Split cs of
              [] \<Rightarrow> [[c]]
            | w # ws \<Rightarrow> (c # w) # ws))"

fun strings_Join :: "string list \<Rightarrow> string" where
  "strings_Join [] = []"
| "strings_Join [w] = w"
| "strings_Join (w # ws) = w @ CHR ''/'' # strings_Join ws"

definition strings_Count :: "string \<Rightarrow> nat" where
  "strings_Count s = length (filter (\<lambda>c. c = CHR ''/'') s)"

definition strings_Contains :: "string \<Rightarrow> bool" where
  "strings_Contains s \<longleftrightarrow> CHR ''/'' \<in> set s"

definition strings_TrimSuffix :: "string \<Rightarrow> string" where
  "strings_TrimSuffix s = (if s \<noteq> [] \<and> last s = CHR ''/'' then butlast s else s)"

definition strings_TrimPrefix :: "string \<Rightarrow> string \<Rightarrow> string" where
  "strings_TrimPrefix s prefix =
     (if take (length prefix) s = prefix then drop (length prefix) s else s)"

definition strings_Trim :: "string \<Rightarrow> string" where
  "strings_Trim s =
     rev (dropWhile (\<lambda>c. c = CHR ''/'') (rev (dropWhile (\<lambda>c. c = CHR ''/'') s)))"

section \<open>Parameters, paths and values\<close>

record Parameter =
  Name :: string
  Value :: string

definition extractRelativePath :: "string \<Rightarrow> string \<Rightarrow> bool \<Rightarrow> string" where
  "extractRelativePath fullPath basePath stripPrefix =
     (if stripPrefix
      then strings_Trim (strings_TrimPrefix fullPath (strings_TrimSuffix basePath))
      else fullPath)"

definition getLastPathSegment :: "string \<Rightarrow> string" where
  "getLastPathSegment path = last (strings_Split path)"

text \<open>
  \<^verbatim>\<open>json.Unmarshal\<close> belongs to the standard library: it is the parameter \<open>unmarshal\<close>,
  which answers \<open>None\<close> where the decoder returns an error.
\<close>

definition parseParameterValue :: "(string \<Rightarrow> node option) \<Rightarrow> string \<Rightarrow> node" where
  "parseParameterValue unmarshal v =
     (case unmarshal v of None \<Rightarrow> Str v | Some result \<Rightarrow> result)"

section \<open>Tree assembly\<close>

type_synonym level = "(string \<times> Parameter) list"

definition level_put ::
  "(string \<times> level) list \<Rightarrow> string \<Rightarrow> string \<Rightarrow> Parameter \<Rightarrow> (string \<times> level) list" where
  "level_put levels levelKey childKey param =
     AList.update levelKey
       (AList.update childKey param
          (case map_of levels levelKey of None \<Rightarrow> [] | Some m \<Rightarrow> m))
       levels"

definition organize_step ::
  "string \<Rightarrow> bool \<Rightarrow> Parameter \<Rightarrow> (string \<times> level) list \<Rightarrow> (string \<times> level) list" where
  "organize_step basePath stripPrefix param levels =
     (let relativePath = extractRelativePath (Name param) basePath stripPrefix in
      if relativePath = [] then
        level_put levels ''.'' (getLastPathSegment (Name param)) param
      else
        (let pathParts = strings_Split relativePath in
         if length pathParts = 1 then level_put levels (hd pathParts) ''.'' param
         else level_put levels (hd pathParts) (strings_Join (tl pathParts)) param))"

definition organizeParametersByLevel ::
  "Parameter list \<Rightarrow> string \<Rightarrow> bool \<Rightarrow> (string \<times> level) list" where
  "organizeParametersByLevel params basePath stripPrefix =
     fold (organize_step basePath stripPrefix) params []"

definition buildArrayFromMap :: "(string \<Rightarrow> node option) \<Rightarrow> level \<Rightarrow> node list" where
  "buildArrayFromMap unmarshal params =
     map (\<lambda>(k, param). parseParameterValue unmarshal (Value param)) params"

fun shouldBeArray_loop :: "int \<Rightarrow> level \<Rightarrow> bool" where
  "shouldBeArray_loop firstDepth [] = (firstDepth = 0)"
| "shouldBeArray_loop firstDepth ((childPath, param) # rest) =
     (let depth = int (strings_Count childPath) in
      if firstDepth = - 1 then shouldBeArray_loop depth rest
      else if depth \<noteq> firstDepth then False
      else shouldBeArray_loop firstDepth rest)"

definition shouldBeArray :: "level \<Rightarrow> bool" where
  "shouldBeArray levelParams =
     (if length levelParams \<le> 1 then False else shouldBeArray_loop (- 1) levelParams)"

fun nestedObject :: "string list \<Rightarrow> node \<Rightarrow> tree" where
  "nestedObject [] v = []"
| "nestedObject [part] v = [(part, v)]"
| "nestedObject (part # rest) v = [(part, Mapping (nestedObject rest v))]"

definition buildNestedObject ::
  "(string \<Rightarrow> node option) \<Rightarrow> string \<Rightarrow> Parameter \<Rightarrow> tree" where
  "buildNestedObject unmarshal childPath param =
     nestedObject (strings_Split childPath) (parseParameterValue unmarshal (Value param))"

fun insertPath :: "string list \<Rightarrow> node \<Rightarrow> tree \<Rightarrow> tree" where
  "insertPath [] v current = current"
| "insertPath [part] v current = AList.update part v current"
| "insertPath (part # rest) v current =
     (case map_of current part of
        Some (Mapping childMap) \<Rightarrow>
          AList.update part (Mapping (insertPath rest v childMap)) current
      | _ \<Rightarrow> AList.update part (Mapping (insertPath rest v [])) current)"

definition buildNestedStructure :: "(string \<Rightarrow> node option) \<Rightarrow> level \<Rightarrow> tree" where
  "buildNestedStructure unmarshal levelParams =
     fold (\<lambda>(childPath, param) result.
             insertPath (strings_Split childPath)
               (parseParameterValue unmarshal (Value param)) result)
          levelParams []"

definition processRootLevel :: "(string \<Rightarrow> node option) \<Rightarrow> tree \<Rightarrow> level \<Rightarrow> tree" where
  "processRootLevel unmarshal result levelParams =
     (if length levelParams > 1 then
        AList.update ''items'' (Sequence (buildArrayFromMap unmarshal levelParams)) result
      else
        fold (\<lambda>(paramName, param) r.
                AList.update paramName (parseParameterValue unmarshal (Value param)) r)
             levelParams result)"

definition processNestedLevel ::
  "(string \<Rightarrow> node option) \<Rightarrow> tree \<Rightarrow> string \<Rightarrow> level \<Rightarrow> tree" where
  "processNestedLevel unmarshal result levelKey levelParams =
     (if length levelParams = 1 then
        fold (\<lambda>(childPath, param) r.
                if childPath = ''.'' then
                  AList.update levelKey (parseParameterValue unmarshal (Value param)) r
                else
                  AList.update levelKey
                    (Mapping (buildNestedObject unmarshal childPath param)) r)
             levelParams result
      else if shouldBeArray levelParams then
        AList.update levelKey (Sequence (buildArrayFromMap unmarshal levelParams)) result
      else
        AList.update levelKey (Mapping (buildNestedStructure unmarshal levelParams)) result)"

text \<open>
  \<open>levelOrder\<close> is the order in which the level map is ranged over, and
  \<open>childOrder levelKey\<close> the order of the children of one level.
\<close>

definition buildGenericStructure ::
  "(string \<Rightarrow> node option) \<Rightarrow> string list \<Rightarrow> (string \<Rightarrow> string list) \<Rightarrow>
   (string \<times> level) list \<Rightarrow> tree" where
  "buildGenericStructure unmarshal levelOrder childOrder levels =
     fold (\<lambda>(levelKey, levelParams) result.
             if levelKey = ''.'' then
               processRootLevel unmarshal result
                 (range_map (childOrder levelKey) levelParams)
             else
               processNestedLevel unmarshal result levelKey
                 (range_map (childOrder levelKey) levelParams))
          (range_map levelOrder levels) []"

definition buildStructure ::
  "(string \<Rightarrow> node option) \<Rightarrow> string list \<Rightarrow> (string \<Rightarrow> string list) \<Rightarrow>
   Parameter list \<Rightarrow> string \<Rightarrow> bool \<Rightarrow> bool \<Rightarrow> tree" where
  "buildStructure unmarshal levelOrder childOrder params basePath stripPrefix
       sortByDependencies =
     (if length params = 0 then []
      else buildGenericStructure unmarshal levelOrder childOrder
             (organizeParametersByLevel params basePath stripPrefix))"

section \<open>Deep merge\<close>

function mergeMaps :: "tree \<Rightarrow> tree \<Rightarrow> tree" where
  "mergeMaps dest [] = dest"
| "mergeMaps dest ((key, srcValue) # rest) =
     mergeMaps
       (case map_of dest key of
          Some (Mapping destMap) \<Rightarrow>
            (case srcValue of
               Mapping srcMap \<Rightarrow> AList.update key (Mapping (mergeMaps destMap srcMap)) dest
             | _ \<Rightarrow> AList.update key srcValue dest)
        | Some (Sequence destArray) \<Rightarrow>
            (case srcValue of
               Sequence srcArray \<Rightarrow> AList.update key (Sequence (destArray @ srcArray)) dest
             | _ \<Rightarrow> AList.update key srcValue dest)
        | _ \<Rightarrow> AList.update key srcValue dest)
       rest"
  by pat_completeness auto

termination
  by (relation "measure (\<lambda>(dest, src). size_list (size_prod (\<lambda>k. 0) size) src)") auto

section \<open>YAML rules\<close>

datatype error =
    FetchFailed string string
  | NestedNotSupported string
  | YAMLParseFailed string
  | DuplicateRuleKey string
  | TypesNotFound
  | TypesNotSlice
  | QueryNotFound
  | CircularDependency
  | SortFailed error
  | MarshalFailed string

text \<open>
  \<^verbatim>\<open>yaml.Unmarshal\<close> into a map and into a slice are the parameters \<open>unmarshalMap\<close>
  and \<open>unmarshalList\<close>; \<open>None\<close> stands for a returned error.
\<close>

fun buildYAML_loop ::
  "(string \<Rightarrow> tree option) \<Rightarrow> (string \<Rightarrow> node list option) \<Rightarrow> string \<Rightarrow> bool \<Rightarrow>
   Parameter list \<Rightarrow> tree \<Rightarrow> error + tree" where
  "buildYAML_loop unmarshalMap unmarshalList basePath stripPrefix [] result = Inr result"
| "buildYAML_loop unmarshalMap unmarshalList basePath stripPrefix (param # rest) result =
     (let relative = extractRelativePath (Name param) basePath stripPrefix in
      if strings_Contains relative then Inl (NestedNotSupported (Name param))
      else
        (let relative = (if relative = [] then getLastPathSegment (Name param) else relative) in
         case unmarshalMap (Value param) of
           Some m \<Rightarrow>
             buildYAML_loop unmarshalMap unmarshalList basePath stripPrefix rest
               (mergeMaps result m)
         | None \<Rightarrow>
             (case unmarshalList (Value param) of
                None \<Rightarrow> Inl (YAMLParseFailed (Name param))
              | Some l \<Rightarrow>
                  if map_of result relative \<noteq> None then Inl (DuplicateRuleKey relative)
                  else
                    buildYAML_loop unmarshalMap unmarshalList basePath stripPrefix rest
                      (AList.update relative (Sequence l) result))))"

definition buildYAMLStructure ::
  "(string \<Rightarrow> tree option) \<Rightarrow> (string \<Rightarrow> node list option) \<Rightarrow>
   Parameter list \<Rightarrow> string \<Rightarrow> bool \<Rightarrow> error + tree" where
  "buildYAMLStructure unmarshalMap unmarshalList params basePath stripPrefix =
     buildYAML_loop unmarshalMap unmarshalList basePath stripPrefix params []"

section \<open>Dependency sort\<close>

text \<open>Reading a key a Go map does not hold gives the zero value of the element type.\<close>

definition adjOf :: "(string \<times> string list) list \<Rightarrow> string \<Rightarrow> string list" where
  "adjOf adjacencia k = (case map_of adjacencia k of None \<Rightarrow> [] | Some ns \<Rightarrow> ns)"

definition grauOf :: "(string \<times> int) list \<Rightarrow> string \<Rightarrow> int" where
  "grauOf grauEntrada k = (case map_of grauEntrada k of None \<Rightarrow> 0 | Some n \<Rightarrow> n)"

definition defOf :: "tree \<Rightarrow> string \<Rightarrow> node" where
  "defOf typeDefinitions k = (case map_of typeDefinitions k of None \<Rightarrow> Null | Some t \<Rightarrow> t)"

definition collect_step :: "node \<Rightarrow> tree \<times> (string \<times> bool) list \<Rightarrow> tree \<times> (string \<times> bool) list" where
  "collect_step t = (\<lambda>(typeDefinitions, typeNames).
     case t of
       Mapping typeMap \<Rightarrow>
         (case map_of typeMap ''name'' of
            Some (Str name) \<Rightarrow>
              (AList.update name t typeDefinitions, AList.update name True typeNames)
          | _ \<Rightarrow> (typeDefinitions, typeNames))
     | _ \<Rightarrow> (typeDefinitions, typeNames))"

definition collectTypes :: "node list \<Rightarrow> tree \<times> (string \<times> bool) list" where
  "collectTypes rawTypes = fold collect_step rawTypes ([], [])"

type_synonym graph = "(string \<times> string list) list \<times> (string \<times> int) list"

definition initGraph :: "string list \<Rightarrow> graph" where
  "initGraph names =
     fold (\<lambda>name (adjacencia, grauEntrada).
             (AList.update name [] adjacencia, AList.update name 0 grauEntrada))
          names ([], [])"

definition addDependency :: "(string \<times> bool) list \<Rightarrow> string \<Rightarrow> string \<Rightarrow> graph \<Rightarrow> graph" where
  "addDependency typeNames name dependencyName = (\<lambda>(adjacencia, grauEntrada).
     if map_of typeNames dependencyName \<noteq> None then
       (AList.update dependencyName (adjOf adjacencia dependencyName @ [name]) adjacencia,
        AList.update name (grauOf grauEntrada name + 1) grauEntrada)
     else (adjacencia, grauEntrada))"

definition processArg :: "(string \<times> bool) list \<Rightarrow> string \<Rightarrow> node \<Rightarrow> graph \<Rightarrow> graph" where
  "processArg typeNames name a g =
     (case a of
        Mapping arg \<Rightarrow>
          (case map_of arg ''ofType'' of
             Some (Str dependencyName) \<Rightarrow> addDependency typeNames name dependencyName g
           | _ \<Rightarrow> g)
      | _ \<Rightarrow> g)"

definition processField :: "(string \<times> bool) list \<Rightarrow> string \<Rightarrow> node \<Rightarrow> graph \<Rightarrow> graph" where
  "processField typeNames name f g =
     (case f of
        Mapping field \<Rightarrow>
          (let g1 = (case map_of field ''ofType'' of
                       Some (Str dependencyName) \<Rightarrow> addDependency typeNames name dependencyName g
                     | _ \<Rightarrow> g)
           in case map_of field ''args'' of
                Some (Sequence args) \<Rightarrow> fold (processArg typeNames name) args g1
              | _ \<Rightarrow> g1)
      | _ \<Rightarrow> g)"

text \<open>
  \<open>typeDefinitions\<close> holds mappings only (lemma \<open>collectTypes_defs_Mapping\<close> below), so
  the unchecked type assertion of the source never panics and the last case is never taken.
\<close>

definition processType :: "tree \<Rightarrow> (string \<times> bool) list \<Rightarrow> string \<Rightarrow> graph \<Rightarrow> graph" where
  "processType typeDefinitions typeNames name g =
     (case defOf typeDefinitions name of
        Mapping typeDef \<Rightarrow>
          (case map_of typeDef ''fields'' of
             Some (Sequence fieldList) \<Rightarrow> fold (processField typeNames name) fieldList g
           | _ \<Rightarrow> g)
      | _ \<Rightarrow> g)"

definition seedQueue :: "(string \<times> int) list \<Rightarrow> string list" where
  "seedQueue visited = map fst (filter (\<lambda>(name, grau). grau = 0) visited)"

definition relax :: "string \<Rightarrow> string list \<times> (string \<times> int) list \<Rightarrow> string list \<times> (string \<times> int) list" where
  "relax neighbor = (\<lambda>(fila, grauEntrada).
     let grauEntrada' = AList.update neighbor (grauOf grauEntrada neighbor - 1) grauEntrada in
     (if grauOf grauEntrada' neighbor = 0 then fila @ [neighbor] else fila, grauEntrada'))"

definition pending :: "string list \<times> (string \<times> int) list \<Rightarrow> nat" where
  "pending = (\<lambda>(fila, grauEntrada).
     length fila + card {n \<in> fst ` set grauEntrada. 1 \<le> grauOf grauEntrada n})"

lemma grauOf_update: "grauOf (AList.update k v g) m = (if m = k then v else grauOf g m)"
  by (simp add: grauOf_def update_conv')

lemma grauOf_nonzero_key: "grauOf g n \<noteq> 0 \<Longrightarrow> n \<in> fst ` set g"
  by (auto simp: grauOf_def split: option.splits dest: map_of_SomeD intro: rev_image_eqI)

lemma relax_pending: "pending (relax n st) \<le> pending st"
proof (cases st)
  case (Pair q g)
  let ?v = "grauOf g n"
  let ?g' = "AList.update n (?v - 1) g"
  let ?S = "{m \<in> fst ` set g. 1 \<le> grauOf g m}"
  let ?S' = "{m \<in> fst ` set ?g'. 1 \<le> grauOf ?g' m}"
  have fin: "finite ?S" by simp
  show ?thesis
  proof (cases "?v = 1")
    case True
    then have nS: "n \<in> ?S" using grauOf_nonzero_key[of g n] by simp
    have "?S' \<subseteq> ?S - {n}"
      using True by (auto simp: grauOf_update dom_update)
    then have "card ?S' \<le> card (?S - {n})" by (intro card_mono) auto
    also have "\<dots> < card ?S" using nS fin by (intro card_Diff1_less) auto
    finally show ?thesis using True Pair
      by (simp add: relax_def pending_def Let_def grauOf_update)
  next
    case False
    have "?S' \<subseteq> ?S"
      using grauOf_nonzero_key[of g n] by (auto simp: grauOf_update dom_update)
    then have "card ?S' \<le> card ?S" by (intro card_mono) auto
    then show ?thesis using False Pair
      by (simp add: relax_def pending_def Let_def grauOf_update)
  qed
qed

lemma fold_relax_pending: "pending (fold relax ns st) \<le> pending st"
proof (induction ns arbitrary: st)
  case Nil
  show ?case by simp
next
  case (Cons n ns)
  have "pending (fold relax ns (relax n st)) \<le> pending (relax n st)" by (rule Cons.IH)
  also have "\<dots> \<le> pending st" by (rule relax_pending)
  finally show ?case by simp
qed

text \<open>
  The queue loop. Each round takes the head of \<open>fila\<close>, emits its definition and runs
  the inner loop \<open>relax\<close> over its neighbours; \<open>pending\<close> falls in every round, whatever
  the degrees are.
\<close>

function kahnLoop ::
  "tree \<Rightarrow> (string \<times> string list) list \<Rightarrow> string list \<Rightarrow> node list \<Rightarrow>
   (string \<times> int) list \<Rightarrow> node list" where
  "kahnLoop typeDefinitions adjacencia [] sortedTypes grauEntrada = sortedTypes"
| "kahnLoop typeDefinitions adjacencia (currentName # fila) sortedTypes grauEntrada =
     kahnLoop typeDefinitions adjacencia
       (fst (fold relax (adjOf adjacencia currentName) (fila, grauEntrada)))
       (sortedTypes @ [defOf typeDefinitions currentName])
       (snd (fold relax (adjOf adjacencia currentName) (fila, grauEntrada)))"
  by pat_completeness auto

termination
proof (relation "measure (\<lambda>(typeDefinitions, adjacencia, fila, sortedTypes, grauEntrada).
                   pending (fila, grauEntrada))")
  show "wf (measure (\<lambda>(typeDefinitions, adjacencia, fila, sortedTypes, grauEntrada).
                   pending (fila, grauEntrada)))" by simp
next
  fix typeDefinitions :: tree and adjacencia currentName fila
    and sortedTypes :: "node list" and grauEntrada
  have "pending (fold relax (adjOf adjacencia currentName) (fila, grauEntrada))
          \<le> pending (fila, grauEntrada)"
    by (rule fold_relax_pending)
  moreover have "pending (fila, grauEntrada) < pending (currentName # fila, grauEntrada)"
    by (simp add: pending_def)
  ultimately show "((typeDefinitions, adjacencia,
           fst (fold relax (adjOf adjacencia currentName) (fila, grauEntrada)),
           sortedTypes @ [defOf typeDefinitions currentName],
           snd (fold relax (adjOf adjacencia currentName) (fila, grauEntrada))),
          typeDefinitions, adjacencia, currentName # fila, sortedTypes, grauEntrada)
         \<in> measure (\<lambda>(typeDefinitions, adjacencia, fila, sortedTypes, grauEntrada).
                   pending (fila, grauEntrada))"
    by simp
qed

text \<open>
  The three \<^verbatim>\<open>range\<close> loops over the maps of type names take their visiting orders
  \<open>ord1\<close> (initialisation), \<open>ord2\<close> (edges) and \<open>ord3\<close> (the seeds of the queue).
\<close>

definition buildGraph :: "string list \<Rightarrow> string list \<Rightarrow> node list \<Rightarrow> graph" where
  "buildGraph ord1 ord2 rawTypes =
     (case collectTypes rawTypes of
        (typeDefinitions, typeNames) \<Rightarrow>
          fold (processType typeDefinitions typeNames)
            (map fst (range_map ord2 typeNames))
            (initGraph (map fst (range_map ord1 typeNames))))"

definition sortedTypesOf :: "string list \<Rightarrow> string list \<Rightarrow> string list \<Rightarrow> node list \<Rightarrow> node list" where
  "sortedTypesOf ord1 ord2 ord3 rawTypes =
     (case buildGraph ord1 ord2 rawTypes of
        (adjacencia, grauEntrada) \<Rightarrow>
          kahnLoop (fst (collectTypes rawTypes)) adjacencia
            (seedQueue (range_map ord3 grauEntrada)) [] grauEntrada)"

definition clearMap :: "tree \<Rightarrow> tree" where
  "clearMap s = fold AList.delete (map fst s) s"

definition sortTypesByDependency ::
  "string list \<Rightarrow> string list \<Rightarrow> string list \<Rightarrow> tree \<Rightarrow> error + tree" where
  "sortTypesByDependency ord1 ord2 ord3 s =
     (case map_of s ''types'' of
        None \<Rightarrow> Inl TypesNotFound
      | Some rawTypesVal \<Rightarrow>
          (case rawTypesVal of
             Sequence rawTypes \<Rightarrow>
               (case map_of s ''query'' of
                  None \<Rightarrow> Inl QueryNotFound
                | Some query \<Rightarrow>
                    (let sortedTypes = sortedTypesOf ord1 ord2 ord3 rawTypes in
                     if length sortedTypes \<noteq> length rawTypes then Inl CircularDependency
                     else
                       Inr (AList.update ''query'' query
                              (AList.update ''types'' (Sequence sortedTypes) (clearMap s)))))
           | _ \<Rightarrow> Inl TypesNotSlice))"

section \<open>The builder\<close>

record BuildOptions =
  Prefixes :: "string list"
  StripPrefix :: bool
  JSONOutput :: bool
  YAMLRules :: bool
  SortByDependencies :: bool

text \<open>
  What the builder takes from outside: the parameter store (\<open>getParametersByPath\<close>, with
  the message of a failed call on the left), the decoders and encoders of the JSON and
  YAML libraries, and the visiting order of every \<^verbatim>\<open>range\<close> over a map it builds.
\<close>

record Collaborators =
  getParametersByPath :: "string \<Rightarrow> string + Parameter list"
  json_Unmarshal :: "string \<Rightarrow> node option"
  yaml_Unmarshal_map :: "string \<Rightarrow> tree option"
  yaml_Unmarshal_list :: "string \<Rightarrow> node list option"
  json_Marshal :: "tree \<Rightarrow> string + string"
  json_MarshalIndent :: "tree \<Rightarrow> string + string"
  yaml_Marshal :: "tree \<Rightarrow> string + string"
  levelsOrder :: "string \<Rightarrow> string list"
  childrenOrder :: "string \<Rightarrow> string \<Rightarrow> string list"
  namesOrder1 :: "string list"
  namesOrder2 :: "string list"
  namesOrder3 :: "string list"

fun yamlPrefixes :: "Collaborators \<Rightarrow> BuildOptions \<Rightarrow> string list \<Rightarrow> tree \<Rightarrow> error + tree" where
  "yamlPrefixes env opts [] configMap = Inr configMap"
| "yamlPrefixes env opts (prefix # rest) configMap =
     (case getParametersByPath env prefix of
        Inl err \<Rightarrow> Inl (FetchFailed prefix err)
      | Inr params \<Rightarrow>
          (case buildYAMLStructure (yaml_Unmarshal_map env) (yaml_Unmarshal_list env)
                  params prefix (StripPrefix opts) of
             Inl err \<Rightarrow> Inl err
           | Inr prefixConfig \<Rightarrow> yamlPrefixes env opts rest (mergeMaps configMap prefixConfig)))"

fun jsonPrefixes :: "Collaborators \<Rightarrow> BuildOptions \<Rightarrow> string list \<Rightarrow> tree \<Rightarrow> error + tree" where
  "jsonPrefixes env opts [] configMap = Inr configMap"
| "jsonPrefixes env opts (prefix # rest) configMap =
     (case getParametersByPath env prefix of
        Inl err \<Rightarrow> Inl (FetchFailed prefix err)
      | Inr params \<Rightarrow>
          jsonPrefixes env opts rest
            (mergeMaps configMap
               (buildStructure (json_Unmarshal env) (levelsOrder env prefix)
                  (childrenOrder env prefix) params prefix (StripPrefix opts)
                  (SortByDependencies opts))))"

definition marshalled :: "string + string \<Rightarrow> error + string" where
  "marshalled r = (case r of Inl err \<Rightarrow> Inl (MarshalFailed err) | Inr bytes \<Rightarrow> Inr bytes)"

definition BuildConfigFromPrefixes :: "Collaborators \<Rightarrow> BuildOptions \<Rightarrow> error + string" where
  "BuildConfigFromPrefixes env opts =
     (if YAMLRules opts then
        (case yamlPrefixes env opts (Prefixes opts) [] of
           Inl err \<Rightarrow> Inl err
         | Inr configMap \<Rightarrow> marshalled (yaml_Marshal env configMap))
      else
        (case jsonPrefixes env opts (Prefixes opts) [] of
           Inl err \<Rightarrow> Inl err
         | Inr configMap \<Rightarrow>
             (case (if SortByDependencies opts then
                      (case sortTypesByDependency (namesOrder1 env) (namesOrder2 env)
                              (namesOrder3 env) configMap of
                         Inl err \<Rightarrow> Inl (SortFailed err)
                       | Inr sortedMap \<Rightarrow> Inr sortedMap)
                    else Inr configMap) of
                Inl err \<Rightarrow> Inl err
              | Inr document \<Rightarrow>
                  if JSONOutput opts then marshalled (json_MarshalIndent env document)
                  else marshalled (json_Marshal env document))))"

section \<open>Notions of the statements\<close>

subsection \<open>Tree assembly\<close>

text \<open>
  The value a nested level stores under its key, and the keys of the result a level
  writes: a nested level writes its own key; the root level writes \<open>items\<close> when it has
  more than one entry, and the key of its entry otherwise. \<open>level_step\<close> is the body of
  the loop of \<open>buildGenericStructure\<close>.
\<close>

definition levelValue :: "(string \<Rightarrow> node option) \<Rightarrow> level \<Rightarrow> node" where
  "levelValue unmarshal levelParams =
     (case levelParams of
        [(childPath, param)] \<Rightarrow>
          if childPath = ''.'' then parseParameterValue unmarshal (Value param)
          else Mapping (buildNestedObject unmarshal childPath param)
      | _ \<Rightarrow>
          if shouldBeArray levelParams
          then Sequence (buildArrayFromMap unmarshal levelParams)
          else Mapping (buildNestedStructure unmarshal levelParams))"

definition rootWrites :: "level \<Rightarrow> string set" where
  "rootWrites levelParams =
     (if length levelParams > 1 then {''items''} else fst ` set levelParams)"

definition levelWrites :: "(string \<Rightarrow> string list) \<Rightarrow> string \<times> level \<Rightarrow> string set" where
  "levelWrites corder = (\<lambda>(levelKey, levelParams).
     if levelKey = ''.'' then rootWrites (range_map (corder levelKey) levelParams)
     else {levelKey})"

definition level_step ::
  "(string \<Rightarrow> node option) \<Rightarrow> (string \<Rightarrow> string list) \<Rightarrow> string \<times> level \<Rightarrow> tree \<Rightarrow> tree" where
  "level_step unmarshal corder = (\<lambda>(levelKey, levelParams) result.
             if levelKey = ''.'' then
               processRootLevel unmarshal result
                 (range_map (corder levelKey) levelParams)
             else
               processNestedLevel unmarshal result levelKey
                 (range_map (corder levelKey) levelParams))"

text \<open>
  The visiting orders a run may take: \<open>lorder\<close> enumerates the levels and
  \<open>corder levelKey\<close> the children of each level.
\<close>

definition orders_ok :: "string list \<Rightarrow> (string \<Rightarrow> string list) \<Rightarrow> (string \<times> level) list \<Rightarrow> bool" where
  "orders_ok lorder corder levels \<longleftrightarrow>
     visits lorder levels \<and> list_all (\<lambda>(levelKey, levelParams). visits (corder levelKey) levelParams) levels"

text \<open>
  An entry of the root level that stands for a parameter with an empty relative path is
  stored under the last segment of that parameter's name.
\<close>

definition root_keyed :: "string \<Rightarrow> bool \<Rightarrow> (string \<times> level) list \<Rightarrow> bool" where
  "root_keyed basePath stripPrefix levels \<longleftrightarrow>
     (\<forall>lv k q. map_of levels ''.'' = Some lv \<and> (k, q) \<in> set lv \<and>
        extractRelativePath (Name q) basePath stripPrefix = []
        \<longrightarrow> k = getLastPathSegment (Name q))"

subsection \<open>YAML rules\<close>








subsection \<open>Dependency sort\<close>

text \<open>
  What the claims call a typed entry, its name and its references: \<open>nameOf\<close> is the name
  under which the first loop of the sort declares an entry, \<open>typeRefs\<close> the \<open>ofType\<close>
  strings of its fields and of their arguments, in the order the second loop meets them.
  \<open>references\<close> is the dependency graph on the entries: an edge from \<open>D\<close> to \<open>E\<close> when
  \<open>E\<close> refers to the name of \<open>D\<close>.
\<close>

definition nameOf :: "node \<Rightarrow> string option" where
  "nameOf t =
     (case t of
        Mapping typeMap \<Rightarrow>
          (case map_of typeMap ''name'' of Some (Str name) \<Rightarrow> Some name | _ \<Rightarrow> None)
      | _ \<Rightarrow> None)"

definition argRefs :: "node \<Rightarrow> string list" where
  "argRefs a =
     (case a of
        Mapping arg \<Rightarrow>
          (case map_of arg ''ofType'' of Some (Str dependencyName) \<Rightarrow> [dependencyName] | _ \<Rightarrow> [])
      | _ \<Rightarrow> [])"

definition fieldRefs :: "node \<Rightarrow> string list" where
  "fieldRefs f =
     (case f of
        Mapping field \<Rightarrow>
          (case map_of field ''ofType'' of Some (Str dependencyName) \<Rightarrow> [dependencyName] | _ \<Rightarrow> []) @
          (case map_of field ''args'' of Some (Sequence args) \<Rightarrow> concat (map argRefs args) | _ \<Rightarrow> [])
      | _ \<Rightarrow> [])"

definition typeRefs :: "node \<Rightarrow> string list" where
  "typeRefs t =
     (case t of
        Mapping typeDef \<Rightarrow>
          (case map_of typeDef ''fields'' of
             Some (Sequence fieldList) \<Rightarrow> concat (map fieldRefs fieldList)
           | _ \<Rightarrow> [])
      | _ \<Rightarrow> [])"

definition declared :: "node list \<Rightarrow> string set" where
  "declared rawTypes = {n. \<exists>t \<in> set rawTypes. nameOf t = Some n}"

definition references :: "node list \<Rightarrow> (node \<times> node) set" where
  "references rawTypes =
     {(D, E). D \<in> set rawTypes \<and> E \<in> set rawTypes \<and>
              (\<exists>d. nameOf D = Some d \<and> d \<in> set (typeRefs E))}"

text \<open>
  The declared names an entry refers to, with repetitions, as the second loop counts
  them; the visiting orders a run of the sort may take; what the adjacency lists hold.
\<close>

definition predsOf :: "node list \<Rightarrow> string \<Rightarrow> string list" where
  "predsOf rawTypes n =
     filter (\<lambda>d. d \<in> declared rawTypes) (typeRefs (defOf (fst (collectTypes rawTypes)) n))"

definition sort_orders_ok :: "string list \<Rightarrow> string list \<Rightarrow> string list \<Rightarrow> node list \<Rightarrow> bool" where
  "sort_orders_ok ord1 ord2 ord3 rawTypes \<longleftrightarrow>
     visits ord1 (snd (collectTypes rawTypes)) \<and>
     visits ord2 (snd (collectTypes rawTypes)) \<and>
     visits ord3 (snd (buildGraph ord1 ord2 rawTypes))"

definition graph_ok :: "string set \<Rightarrow> (string \<Rightarrow> string list) \<Rightarrow> (string \<times> string list) list \<Rightarrow> bool" where
  "graph_ok V preds adj \<longleftrightarrow>
     (\<forall>d e. e \<in> V \<longrightarrow> count_list (adjOf adj d) e = count_list (preds e) d) \<and>
     (\<forall>d. set (adjOf adj d) \<subseteq> V) \<and>
     (\<forall>e \<in> V. set (preds e) \<subseteq> V)"

text \<open>
  The invariant of the queue loop, over the names emitted so far (\<open>out\<close>), the queue
  and the degrees: a name is emitted or queued exactly when its degree is zero, the degree
  of a name counts its references to names not emitted yet, and every emitted name comes
  after all the names it refers to.
\<close>

definition kahn_inv ::
  "string set \<Rightarrow> (string \<Rightarrow> string list) \<Rightarrow> string list \<Rightarrow> string list \<Rightarrow> (string \<times> int) list \<Rightarrow> bool" where
  "kahn_inv V preds out fila grau \<longleftrightarrow>
     distinct (out @ fila) \<and> set (out @ fila) \<subseteq> V \<and>
     (\<forall>n \<in> V. grauOf grau n = int (length (filter (\<lambda>d. d \<notin> set out) (preds n)))) \<and>
     (\<forall>n \<in> V. n \<in> set (out @ fila) \<longleftrightarrow> grauOf grau n = 0) \<and>
     (\<forall>i < length out. set (preds (out ! i)) \<subseteq> set (take i out))"

text \<open>
  \<open>before xs a b\<close>: the element \<open>a\<close> stands at an earlier position of \<open>xs\<close> than \<open>b\<close>.
\<close>

definition before :: "'a list \<Rightarrow> 'a \<Rightarrow> 'a \<Rightarrow> bool" where
  "before xs a b \<longleftrightarrow> (\<exists>i j. i < j \<and> j < length xs \<and> xs ! i = a \<and> xs ! j = b)"

section \<open>Example data\<close>

text \<open>
  The answers of \<^verbatim>\<open>json.Unmarshal\<close> and \<^verbatim>\<open>yaml.Unmarshal\<close> on the documents the
  examples below use, and \<open>None\<close> elsewhere.
\<close>

definition typeA :: node where
  "typeA = Mapping [(''name'', Str ''A'')]"

definition typeB :: node where
  "typeB = Mapping [(''name'', Str ''B''),
                    (''fields'', Sequence [Mapping [(''ofType'', Str ''A'')]])]"

definition typeC :: node where
  "typeC = Mapping [(''name'', Str ''C''),
                    (''fields'', Sequence [Mapping [(''ofType'', Str ''Int''),
                       (''args'', Sequence [Mapping [(''ofType'', Str ''B'')]])]])]"

definition typeA_needs_B :: node where
  "typeA_needs_B = Mapping [(''name'', Str ''A''),
                            (''fields'', Sequence [Mapping [(''ofType'', Str ''B'')]])]"

definition sample_json :: "string \<Rightarrow> node option" where
  "sample_json = map_of
     [(''1'', Number 1),
      (''2'', Number 2),
      (''{\"name\":\"A\"}'', typeA),
      (''{\"name\":\"B\",\"fields\":[{\"ofType\":\"A\"}]}'', typeB),
      (''{\"name\":\"A\",\"fields\":[{\"ofType\":\"B\"}]}'', typeA_needs_B)]"

definition sample_yaml_map :: "string \<Rightarrow> tree option" where
  "sample_yaml_map = map_of
     [(''a: 1'', [(''a'', Number 1)]),
      (''b: 2'', [(''b'', Number 2)]),
      (''blockedIps: [\"5.6.7.8\"]'', [(''blockedIps'', Sequence [Str ''5.6.7.8''])]),
      (''a: {1: x}'', [(''a'', GeneralMapping [(Number 1, Str ''x'')])]),
      (''a: {2: y}'', [(''a'', GeneralMapping [(Number 2, Str ''y'')])])]"

definition sample_yaml_list :: "string \<Rightarrow> node list option" where
  "sample_yaml_list = map_of
     [(''[\"1.2.3.4\"]'', [Str ''1.2.3.4'']),
      (''[\"5.6.7.8\"]'', [Str ''5.6.7.8''])]"

text \<open>A parameter store with three schemas: one well formed, one cyclic, one without a query.\<close>

definition sample_store :: "string \<Rightarrow> string + Parameter list" where
  "sample_store path =
     (if path = ''/app/schema'' then
        Inr [\<lparr>Name = ''/app/schema/query'', Value = ''1''\<rparr>,
             \<lparr>Name = ''/app/schema/types/A'', Value = ''{\"name\":\"A\"}''\<rparr>,
             \<lparr>Name = ''/app/schema/types/B'',
              Value = ''{\"name\":\"B\",\"fields\":[{\"ofType\":\"A\"}]}''\<rparr>]
      else if path = ''/app/cyclic'' then
        Inr [\<lparr>Name = ''/app/cyclic/query'', Value = ''1''\<rparr>,
             \<lparr>Name = ''/app/cyclic/types/A'',
              Value = ''{\"name\":\"A\",\"fields\":[{\"ofType\":\"B\"}]}''\<rparr>,
             \<lparr>Name = ''/app/cyclic/types/B'',
              Value = ''{\"name\":\"B\",\"fields\":[{\"ofType\":\"A\"}]}''\<rparr>]
      else if path = ''/app/noquery'' then
        Inr [\<lparr>Name = ''/app/noquery/types/A'', Value = ''{\"name\":\"A\"}''\<rparr>,
             \<lparr>Name = ''/app/noquery/types/B'',
              Value = ''{\"name\":\"B\",\"fields\":[{\"ofType\":\"A\"}]}''\<rparr>]
      else Inl ''ParameterNotFound'')"

definition sample_levelOrder :: "string \<Rightarrow> string list" where
  "sample_levelOrder path = [''types'', ''query'']"

definition sample_childOrder :: "string \<Rightarrow> string \<Rightarrow> string list" where
  "sample_childOrder path levelKey = (if levelKey = ''types'' then [''B'', ''A''] else [''.''])"

definition sample_encoder :: "tree \<Rightarrow> string + string" where
  "sample_encoder document = Inr (concat (map fst document))"

definition sample_env :: Collaborators where
  "sample_env =
     \<lparr>getParametersByPath = sample_store,
      json_Unmarshal = sample_json,
      yaml_Unmarshal_map = sample_yaml_map,
      yaml_Unmarshal_list = sample_yaml_list,
      json_Marshal = sample_encoder,
      json_MarshalIndent = sample_encoder,
      yaml_Marshal = sample_encoder,
      levelsOrder = sample_levelOrder,
      childrenOrder = sample_childOrder,
      namesOrder1 = [''A'', ''B''],
      namesOrder2 = [''B'', ''A''],
      namesOrder3 = [''B'', ''A'']\<rparr>"

definition sample_options :: "string \<Rightarrow> bool \<Rightarrow> BuildOptions" where
  "sample_options prefix sortByDependencies =
     \<lparr>Prefixes = [prefix], StripPrefix = True, JSONOutput = True, YAMLRules = False,
      SortByDependencies = sortByDependencies\<rparr>"

text \<open>
  A document with a third top-level key; two levels for the array/object policy; a
  visiting order for a root level with the entry \<open>p\<close>; rule parameters and parameters
  holding mappings, two of them with a nested mapping keyed by a number; three typed
  entries, the last two referred to by the first two.
\<close>

definition sample_document :: tree where
  "sample_document =
     [(''types'', Sequence [typeB, typeA]), (''query'', Number 1), (''mutation'', Str ''m'')]"

definition sample_flat_level :: level where
  "sample_flat_level = [(''A'', \<lparr>Name = ''/app/schema/types/A'', Value = ''1''\<rparr>),
                        (''B'', \<lparr>Name = ''/app/schema/types/B'', Value = ''2''\<rparr>)]"

definition sample_deep_level :: level where
  "sample_deep_level = [(''name'', \<lparr>Name = ''/app/user/name'', Value = ''Ann''\<rparr>),
                        (''address/zip'', \<lparr>Name = ''/app/user/address/zip'', Value = ''2''\<rparr>)]"

definition root_first_childOrder :: "string \<Rightarrow> string list" where
  "root_first_childOrder levelKey = (if levelKey = ''.'' then [''p''] else [''.''])"







definition numbered_m1 :: Parameter where
  "numbered_m1 = \<lparr>Name = ''/r/m1'', Value = ''a: {1: x}''\<rparr>"

definition numbered_m2 :: Parameter where
  "numbered_m2 = \<lparr>Name = ''/r/m2'', Value = ''a: {2: y}''\<rparr>"



definition sample_types :: "node list" where
  "sample_types = [typeC, typeB, typeA]"

section \<open>Value parsing, the frame of the sort and the merge\<close>

lemma fold_delete_filter:
  "fold AList.delete ks s = filter (\<lambda>p. fst p \<notin> set ks) s"
proof (induction ks arbitrary: s)
  case Nil
  show ?case by simp
next
  case (Cons k ks)
  have "fold AList.delete (k # ks) s = filter (\<lambda>p. fst p \<notin> set ks) (AList.delete k s)"
    using Cons.IH by simp
  also have "\<dots> = filter (\<lambda>p. fst p \<notin> set (k # ks)) s"
    by (auto simp: AList.delete_eq intro: filter_cong)
  finally show ?case .
qed

lemma clearMap_empty: "clearMap s = []"
  unfolding clearMap_def fold_delete_filter by (simp add: filter_empty_conv)

lemma sortTypesByDependency_Inr:
  "sortTypesByDependency ord1 ord2 ord3 s = Inr s' \<longleftrightarrow>
     (\<exists>rawTypes query. map_of s ''types'' = Some (Sequence rawTypes) \<and>
        map_of s ''query'' = Some query \<and>
        length (sortedTypesOf ord1 ord2 ord3 rawTypes) = length rawTypes \<and>
        s' = [(''types'', Sequence (sortedTypesOf ord1 ord2 ord3 rawTypes)), (''query'', query)])"
  by (auto simp: sortTypesByDependency_def clearMap_empty Let_def
           split: option.splits node.splits)

lemma jsonPrefixes_error:
  "jsonPrefixes env opts prefixes acc = Inl err \<Longrightarrow>
     \<exists>prefix cause. prefix \<in> set prefixes \<and> getParametersByPath env prefix = Inl cause \<and>
        err = FetchFailed prefix cause"
proof (induction prefixes arbitrary: acc)
  case Nil
  then show ?case by simp
next
  case (Cons p ps)
  show ?case
  proof (cases "getParametersByPath env p")
    case (Inl cause)
    with Cons.prems show ?thesis by auto
  next
    case (Inr params)
    with Cons.prems have "jsonPrefixes env opts ps
        (mergeMaps acc (buildStructure (json_Unmarshal env) (levelsOrder env p)
           (childrenOrder env p) params p (StripPrefix opts) (SortByDependencies opts))) = Inl err"
      by simp
    from Cons.IH[OF this] show ?thesis by auto
  qed
qed

lemma marshalled_error: "marshalled r = Inl err \<Longrightarrow> \<exists>cause. err = MarshalFailed cause"
  by (auto simp: marshalled_def split: sum.splits)

text \<open>
  Claim C8. Parsing a parameter value in JSON mode is total: the decoded value when the
  string decodes as JSON, the string itself as a scalar otherwise. No error comes out of
  it: when every prefix is fetched the JSON loop over the prefixes returns a document, and
  a failed build in JSON mode failed in the parameter store, in the dependency sort or in
  the encoder.
\<close>

theorem json_value_parsing_total:
  "parseParameterValue unmarshal v = (case unmarshal v of Some parsed \<Rightarrow> parsed | None \<Rightarrow> Str v) \<and>
   ((\<forall>prefix \<in> set prefixes. \<exists>params. getParametersByPath env prefix = Inr params) \<longrightarrow>
      (\<exists>configMap. jsonPrefixes env opts prefixes acc = Inr configMap)) \<and>
   (\<not> YAMLRules opts \<and> BuildConfigFromPrefixes env opts = Inl err \<longrightarrow>
      (\<exists>prefix cause. err = FetchFailed prefix cause) \<or>
      (\<exists>cause. err = SortFailed cause) \<or>
      (\<exists>cause. err = MarshalFailed cause))"
proof (intro conjI impI)
  show "parseParameterValue unmarshal v =
          (case unmarshal v of Some parsed \<Rightarrow> parsed | None \<Rightarrow> Str v)"
    by (simp add: parseParameterValue_def split: option.splits)
next
  assume fetched: "\<forall>prefix \<in> set prefixes. \<exists>params. getParametersByPath env prefix = Inr params"
  show "\<exists>configMap. jsonPrefixes env opts prefixes acc = Inr configMap"
  proof (cases "jsonPrefixes env opts prefixes acc")
    case (Inl err)
    from jsonPrefixes_error[OF this] fetched show ?thesis by auto
  next
    case (Inr configMap)
    then show ?thesis by blast
  qed
next
  assume a: "\<not> YAMLRules opts \<and> BuildConfigFromPrefixes env opts = Inl err"
  show "(\<exists>prefix cause. err = FetchFailed prefix cause) \<or>
      (\<exists>cause. err = SortFailed cause) \<or>
      (\<exists>cause. err = MarshalFailed cause)"
  proof (cases "jsonPrefixes env opts (Prefixes opts) []")
    case (Inl e)
    with a have "err = e" by (auto simp: BuildConfigFromPrefixes_def)
    with jsonPrefixes_error[OF Inl] show ?thesis by auto
  next
    case (Inr configMap)
    with a show ?thesis
      by (auto simp: BuildConfigFromPrefixes_def split: if_splits sum.splits
               dest: marshalled_error)
  qed
qed

theorem json_value_parsing_total_witness:
  "parseParameterValue sample_json ''up'' = Str ''up'' \<and>
   parseParameterValue sample_json ''2'' = Number 2 \<and>
   (\<exists>params. getParametersByPath sample_env ''/app/noquery'' = Inr params) \<and>
   (\<exists>configMap. jsonPrefixes sample_env (sample_options ''/app/noquery'' False)
      [''/app/noquery''] [] = Inr configMap) \<and>
   \<not> YAMLRules (sample_options ''/app/none'' False) \<and>
   BuildConfigFromPrefixes sample_env (sample_options ''/app/none'' False)
     = Inl (FetchFailed ''/app/none'' ''ParameterNotFound'')"
proof -
  have fetched: "\<forall>prefix \<in> set [''/app/noquery''].
      \<exists>params. getParametersByPath sample_env prefix = Inr params"
    by (simp add: sample_env_def sample_store_def)
  have failed: "BuildConfigFromPrefixes sample_env (sample_options ''/app/none'' False)
     = Inl (FetchFailed ''/app/none'' ''ParameterNotFound'')"
    by code_simp
  have up: "sample_json ''up'' = None" and two: "sample_json ''2'' = Some (Number 2)"
    by (simp_all add: sample_json_def)
  note t = json_value_parsing_total[of sample_json _ "[''/app/noquery'']" sample_env
      "sample_options ''/app/noquery'' False" "[]"]
  from t[of "''up''"] t[of "''2''"] fetched failed up two show ?thesis
    by (simp add: sample_options_def)
qed

text \<open>
  Claim C10. A top-level mapping without the key \<open>query\<close> makes the dependency sort
  return an error, whatever is under \<open>types\<close> (with a sequence there, the error is the
  missing query), and a build in JSON mode that sorts such a document fails.
\<close>

theorem sort_fails_without_query:
  assumes "map_of s ''query'' = None"
  shows "(\<exists>err. sortTypesByDependency ord1 ord2 ord3 s = Inl err) \<and>
         ((\<exists>rawTypes. map_of s ''types'' = Some (Sequence rawTypes)) \<longrightarrow>
            sortTypesByDependency ord1 ord2 ord3 s = Inl QueryNotFound) \<and>
         (\<not> YAMLRules opts \<and> SortByDependencies opts \<and>
          jsonPrefixes env opts (Prefixes opts) [] = Inr s \<longrightarrow>
            (\<exists>err. BuildConfigFromPrefixes env opts = Inl (SortFailed err)))"
proof -
  have fails: "\<exists>err. sortTypesByDependency o1 o2 o3 s = Inl err" for o1 o2 o3
    using assms by (simp add: sortTypesByDependency_def split: option.splits node.splits)
  have "sortTypesByDependency ord1 ord2 ord3 s = Inl QueryNotFound"
    if "\<exists>rawTypes. map_of s ''types'' = Some (Sequence rawTypes)"
    using assms that by (auto simp: sortTypesByDependency_def)
  moreover have "\<exists>err. BuildConfigFromPrefixes env opts = Inl (SortFailed err)"
    if "\<not> YAMLRules opts \<and> SortByDependencies opts \<and>
          jsonPrefixes env opts (Prefixes opts) [] = Inr s"
    using that fails[of "namesOrder1 env" "namesOrder2 env" "namesOrder3 env"]
    by (auto simp: BuildConfigFromPrefixes_def)
  ultimately show ?thesis using fails by blast
qed

theorem sort_fails_without_query_witness:
  "map_of [(''types'', Sequence [typeB, typeA])] ''query'' = None \<and>
   sortTypesByDependency [''A'', ''B''] [''B'', ''A''] [''B'', ''A'']
     [(''types'', Sequence [typeB, typeA])] = Inl QueryNotFound \<and>
   jsonPrefixes sample_env (sample_options ''/app/noquery'' True)
     (Prefixes (sample_options ''/app/noquery'' True)) [] = Inr [(''types'', Sequence [typeB, typeA])] \<and>
   (\<exists>err. BuildConfigFromPrefixes sample_env (sample_options ''/app/noquery'' True)
      = Inl (SortFailed err))"
proof -
  have noquery: "map_of [(''types'', Sequence [typeB, typeA])] ''query'' = None" by simp
  have built: "jsonPrefixes sample_env (sample_options ''/app/noquery'' True)
     (Prefixes (sample_options ''/app/noquery'' True)) [] = Inr [(''types'', Sequence [typeB, typeA])]"
    by code_simp
  have flags: "\<not> YAMLRules (sample_options ''/app/noquery'' True)"
    "SortByDependencies (sample_options ''/app/noquery'' True)"
    by (simp_all add: sample_options_def)
  from sort_fails_without_query[OF noquery, of "[''A'', ''B'']" "[''B'', ''A'']" "[''B'', ''A'']"
      "sample_options ''/app/noquery'' True" sample_env] noquery built flags
  show ?thesis by simp
qed

text \<open>
  Claim C3, as stated, fails: the sort empties the mapping before it stores \<open>types\<close> and
  \<open>query\<close>, so a third top-level key does not keep its value.
\<close>

theorem sort_keeps_other_keys_counterexample:
  "map_of sample_document ''mutation'' = Some (Str ''m'') \<and>
   sortTypesByDependency [''A'', ''B''] [''B'', ''A''] [''B'', ''A''] sample_document
     = Inr [(''types'', Sequence [typeA, typeB]), (''query'', Number 1)] \<and>
   map_of [(''types'', Sequence [typeA, typeB]), (''query'', Number 1)] ''mutation'' = None"
  by code_simp

text \<open>
  Claim C3, amended. A successful sort returns the mapping with exactly the two keys
  \<open>types\<close> and \<open>query\<close>: the sorted sequence under \<open>types\<close>, the previous value under
  \<open>query\<close>, and no other key.
\<close>

theorem sort_rebuilds_document:
  assumes "sortTypesByDependency ord1 ord2 ord3 s = Inr s'"
  shows "\<exists>rawTypes query.
           map_of s ''types'' = Some (Sequence rawTypes) \<and>
           map_of s ''query'' = Some query \<and>
           s' = [(''types'', Sequence (sortedTypesOf ord1 ord2 ord3 rawTypes)), (''query'', query)] \<and>
           map_of s' ''types'' = Some (Sequence (sortedTypesOf ord1 ord2 ord3 rawTypes)) \<and>
           map_of s' ''query'' = map_of s ''query'' \<and>
           fst ` set s' = {''types'', ''query''}"
proof -
  from assms obtain rawTypes query where
    "map_of s ''types'' = Some (Sequence rawTypes)" "map_of s ''query'' = Some query"
    "s' = [(''types'', Sequence (sortedTypesOf ord1 ord2 ord3 rawTypes)), (''query'', query)]"
    unfolding sortTypesByDependency_Inr by blast
  then show ?thesis by auto
qed

theorem sort_rebuilds_document_witness:
  "sortTypesByDependency [''A'', ''B''] [''B'', ''A''] [''B'', ''A''] sample_document
     = Inr [(''types'', Sequence [typeA, typeB]), (''query'', Number 1)] \<and>
   (\<exists>rawTypes query.
           map_of sample_document ''types'' = Some (Sequence rawTypes) \<and>
           map_of sample_document ''query'' = Some query \<and>
           [(''types'', Sequence [typeA, typeB]), (''query'', Number 1)] =
              [(''types'', Sequence (sortedTypesOf [''A'', ''B''] [''B'', ''A''] [''B'', ''A''] rawTypes)),
               (''query'', query)] \<and>
           map_of [(''types'', Sequence [typeA, typeB]), (''query'', Number 1)] ''types''
             = Some (Sequence (sortedTypesOf [''A'', ''B''] [''B'', ''A''] [''B'', ''A''] rawTypes)) \<and>
           map_of [(''types'', Sequence [typeA, typeB]), (''query'', Number 1)] ''query''
             = map_of sample_document ''query'' \<and>
           fst ` set [(''types'', Sequence [typeA, typeB]), (''query'', Number 1)]
             = {''types'', ''query''})"
proof -
  have run: "sortTypesByDependency [''A'', ''B''] [''B'', ''A''] [''B'', ''A''] sample_document
     = Inr [(''types'', Sequence [typeA, typeB]), (''query'', Number 1)]"
    by code_simp
  from sort_rebuilds_document[OF run] run show ?thesis by blast
qed

text \<open>
  Claim C4, amended. The merge goes key by key over \<open>src\<close>: a key \<open>src\<close> does not hold
  keeps the value of \<open>dest\<close>; two string-keyed mappings at a key are merged recursively;
  two sequences are concatenated, the elements of \<open>dest\<close> first; in every other case the
  value of \<open>src\<close> is stored, also where \<open>dest\<close> has no such key, and also where \<open>src\<close>
  holds a mapping with a key that is not a string.
\<close>

theorem mergeMaps_keywise:
  assumes "distinct (map fst src)"
  shows "map_of (mergeMaps dest src) key =
     (case map_of src key of
        None \<Rightarrow> map_of dest key
      | Some srcValue \<Rightarrow>
          (case (map_of dest key, srcValue) of
             (Some (Mapping destMap), Mapping srcMap) \<Rightarrow>
               Some (Mapping (mergeMaps destMap srcMap))
           | (Some (Sequence destArray), Sequence srcArray) \<Rightarrow>
               Some (Sequence (destArray @ srcArray))
           | _ \<Rightarrow> Some srcValue)) \<and>
   (map_of src key = Some (GeneralMapping general)
      \<longrightarrow> map_of (mergeMaps dest src) key = Some (GeneralMapping general))"
proof -
  have keywise: "map_of (mergeMaps dest src) key =
     (case map_of src key of
        None \<Rightarrow> map_of dest key
      | Some srcValue \<Rightarrow>
          (case (map_of dest key, srcValue) of
             (Some (Mapping destMap), Mapping srcMap) \<Rightarrow>
               Some (Mapping (mergeMaps destMap srcMap))
           | (Some (Sequence destArray), Sequence srcArray) \<Rightarrow>
               Some (Sequence (destArray @ srcArray))
           | _ \<Rightarrow> Some srcValue))"
    using assms
  proof (induction src arbitrary: dest)
    case Nil
    show ?case by simp
  next
    case (Cons entry rest)
    obtain k srcValue where entry: "entry = (k, srcValue)" by (cases entry)
    from Cons.prems entry have fresh: "map_of rest k = None" and rest: "distinct (map fst rest)"
      by (auto simp: map_of_eq_None_iff)
    define dest1 where "dest1 =
         (case map_of dest k of
            Some (Mapping destMap) \<Rightarrow>
              (case srcValue of
                 Mapping srcMap \<Rightarrow> AList.update k (Mapping (mergeMaps destMap srcMap)) dest
               | _ \<Rightarrow> AList.update k srcValue dest)
          | Some (Sequence destArray) \<Rightarrow>
              (case srcValue of
                 Sequence srcArray \<Rightarrow> AList.update k (Sequence (destArray @ srcArray)) dest
               | _ \<Rightarrow> AList.update k srcValue dest)
          | _ \<Rightarrow> AList.update k srcValue dest)"
    have step: "mergeMaps dest (entry # rest) = mergeMaps dest1 rest"
      by (simp add: entry dest1_def)
    have other: "map_of dest1 key = map_of dest key" if "key \<noteq> k"
      using that by (simp add: dest1_def update_conv' split: option.splits node.splits)
    have here: "map_of dest1 k =
        (case (map_of dest k, srcValue) of
               (Some (Mapping destMap), Mapping srcMap) \<Rightarrow>
                 Some (Mapping (mergeMaps destMap srcMap))
             | (Some (Sequence destArray), Sequence srcArray) \<Rightarrow>
                 Some (Sequence (destArray @ srcArray))
             | _ \<Rightarrow> Some srcValue)"
      by (simp add: dest1_def update_conv' split: option.splits node.splits)
    show ?case
    proof (cases "key = k")
      case True
      have "map_of (mergeMaps dest1 rest) k = map_of dest1 k"
        using Cons.IH[OF rest, of dest1] True fresh by simp
      with here step True entry show ?thesis by simp
    next
      case False
      have "map_of (mergeMaps dest1 rest) key =
         (case map_of rest key of
          None \<Rightarrow> map_of dest1 key
        | Some srcValue \<Rightarrow>
            (case (map_of dest1 key, srcValue) of
               (Some (Mapping destMap), Mapping srcMap) \<Rightarrow>
                 Some (Mapping (mergeMaps destMap srcMap))
             | (Some (Sequence destArray), Sequence srcArray) \<Rightarrow>
                 Some (Sequence (destArray @ srcArray))
             | _ \<Rightarrow> Some srcValue))"
        by (rule Cons.IH[OF rest])
      then show ?thesis
        unfolding other[OF False] using step False entry by simp
    qed
  qed
  have general: "map_of (mergeMaps dest src) key = Some (GeneralMapping general)"
    if "map_of src key = Some (GeneralMapping general)"
    unfolding keywise that by (simp split: option.splits node.splits)
  from keywise general show ?thesis by blast
qed

text \<open>
  Claim C4, as stated, fails: two mappings at a shared key, each with a key that is a
  number, are not merged; the mapping of \<open>src\<close> replaces that of \<open>dest\<close>. The YAML
  decoder returns such mappings for the values of the two parameters below.
\<close>

theorem mergeMaps_keywise_counterexample:
  "mergeMaps [(''a'', GeneralMapping [(Number 1, Str ''x'')])]
             [(''a'', GeneralMapping [(Number 2, Str ''y'')])]
     = [(''a'', GeneralMapping [(Number 2, Str ''y'')])] \<and>
   buildYAMLStructure sample_yaml_map sample_yaml_list [numbered_m1, numbered_m2] ''/r'' True
     = Inr [(''a'', GeneralMapping [(Number 2, Str ''y'')])]"
  by code_simp

theorem mergeMaps_keywise_witness:
  "distinct (map fst [(''a'', Mapping [(''y'', Number 2)]), (''s'', Sequence [Number 2]),
                      (''t'', Null), (''g'', GeneralMapping [(Number 2, Str ''y'')])]) \<and>
   map_of (mergeMaps [(''a'', Mapping [(''x'', Number 1)]), (''s'', Sequence [Number 1]),
                      (''d'', Null), (''g'', GeneralMapping [(Number 1, Str ''x'')])]
             [(''a'', Mapping [(''y'', Number 2)]), (''s'', Sequence [Number 2]),
              (''t'', Null), (''g'', GeneralMapping [(Number 2, Str ''y'')])]) ''a''
     = Some (Mapping [(''x'', Number 1), (''y'', Number 2)]) \<and>
   map_of (mergeMaps [(''a'', Mapping [(''x'', Number 1)]), (''s'', Sequence [Number 1]),
                      (''d'', Null), (''g'', GeneralMapping [(Number 1, Str ''x'')])]
             [(''a'', Mapping [(''y'', Number 2)]), (''s'', Sequence [Number 2]),
              (''t'', Null), (''g'', GeneralMapping [(Number 2, Str ''y'')])]) ''s''
     = Some (Sequence [Number 1, Number 2]) \<and>
   map_of [(''a'', Mapping [(''y'', Number 2)]), (''s'', Sequence [Number 2]),
           (''t'', Null), (''g'', GeneralMapping [(Number 2, Str ''y'')])] ''g''
     = Some (GeneralMapping [(Number 2, Str ''y'')]) \<and>
   map_of (mergeMaps [(''a'', Mapping [(''x'', Number 1)]), (''s'', Sequence [Number 1]),
                      (''d'', Null), (''g'', GeneralMapping [(Number 1, Str ''x'')])]
             [(''a'', Mapping [(''y'', Number 2)]), (''s'', Sequence [Number 2]),
              (''t'', Null), (''g'', GeneralMapping [(Number 2, Str ''y'')])]) ''g''
     = Some (GeneralMapping [(Number 2, Str ''y'')])"
proof -
  have d: "distinct (map fst [(''a'', Mapping [(''y'', Number 2)]), (''s'', Sequence [Number 2]),
                      (''t'', Null), (''g'', GeneralMapping [(Number 2, Str ''y'')])])"
    by simp
  note t = mergeMaps_keywise[OF d,
      of "[(''a'', Mapping [(''x'', Number 1)]), (''s'', Sequence [Number 1]),
           (''d'', Null), (''g'', GeneralMapping [(Number 1, Str ''x'')])]"]
  from t[of "''a''"] t[of "''s''"] t[of "''g''" "[(Number 2, Str ''y'')]"] d show ?thesis
    by simp
qed

section \<open>Tree assembly: facts\<close>

lemma shouldBeArray_loop_started:
  "0 \<le> firstDepth \<Longrightarrow>
   shouldBeArray_loop firstDepth levelParams
     \<longleftrightarrow> firstDepth = 0 \<and> (\<forall>c \<in> fst ` set levelParams. strings_Count c = 0)"
proof (induction levelParams)
  case Nil
  show ?case by simp
next
  case (Cons entry rest)
  obtain c p where entry: "entry = (c, p)" by (cases entry)
  have "shouldBeArray_loop firstDepth (entry # rest)
          \<longleftrightarrow> int (strings_Count c) = firstDepth \<and> shouldBeArray_loop firstDepth rest"
    using Cons.prems by (simp add: entry Let_def)
  with Cons.IH[OF Cons.prems] show ?case by (auto simp: entry)
qed

lemma shouldBeArray_iff:
  "shouldBeArray levelParams
     \<longleftrightarrow> 1 < length levelParams \<and> (\<forall>c \<in> fst ` set levelParams. strings_Count c = 0)"
proof (cases levelParams)
  case Nil
  then show ?thesis by (simp add: shouldBeArray_def)
next
  case (Cons entry rest)
  obtain c p where entry: "entry = (c, p)" by (cases entry)
  show ?thesis
    using shouldBeArray_loop_started[of "int (strings_Count c)" rest]
    by (auto simp: shouldBeArray_def Cons entry Let_def)
qed

lemma processNestedLevel_update:
  "processNestedLevel unmarshal result levelKey levelParams
     = AList.update levelKey (levelValue unmarshal levelParams) result"
proof (cases "length levelParams = 1")
  case True
  then obtain c p where "levelParams = [(c, p)]"
    by (cases levelParams) auto
  then show ?thesis by (simp add: processNestedLevel_def levelValue_def)
next
  case False
  then have "levelValue unmarshal levelParams =
      (if shouldBeArray levelParams
          then Sequence (buildArrayFromMap unmarshal levelParams)
          else Mapping (buildNestedStructure unmarshal levelParams))"
    by (auto simp: levelValue_def split: list.splits)
  with False show ?thesis by (simp add: processNestedLevel_def)
qed

text \<open>
  Claim C7. A nested level with more than one child becomes a sequence exactly when all
  its child keys have the same number of slashes and that number is zero, and a nested
  mapping otherwise; with at most one child the policy never answers "sequence".
\<close>

theorem array_or_object_policy:
  "(1 < length levelParams \<longrightarrow>
      (shouldBeArray levelParams \<longleftrightarrow>
         (\<forall>c \<in> fst ` set levelParams. \<forall>c' \<in> fst ` set levelParams.
             strings_Count c = strings_Count c') \<and>
         (\<forall>c \<in> fst ` set levelParams. strings_Count c = 0)) \<and>
      processNestedLevel unmarshal result levelKey levelParams =
        AList.update levelKey
          (if shouldBeArray levelParams
           then Sequence (buildArrayFromMap unmarshal levelParams)
           else Mapping (buildNestedStructure unmarshal levelParams)) result) \<and>
   (length levelParams \<le> 1 \<longrightarrow> \<not> shouldBeArray levelParams)"
proof (intro conjI impI)
  assume many: "1 < length levelParams"
  show "shouldBeArray levelParams \<longleftrightarrow>
         (\<forall>c \<in> fst ` set levelParams. \<forall>c' \<in> fst ` set levelParams.
             strings_Count c = strings_Count c') \<and>
         (\<forall>c \<in> fst ` set levelParams. strings_Count c = 0)"
  proof -
    have eq: "shouldBeArray levelParams
        \<longleftrightarrow> (\<forall>c \<in> fst ` set levelParams. strings_Count c = 0)"
      using many shouldBeArray_iff[of levelParams] by simp
    show ?thesis
      unfolding eq
    proof (rule iffI)
      assume "\<forall>c \<in> fst ` set levelParams. strings_Count c = 0"
      then show "(\<forall>c \<in> fst ` set levelParams. \<forall>c' \<in> fst ` set levelParams.
             strings_Count c = strings_Count c') \<and>
         (\<forall>c \<in> fst ` set levelParams. strings_Count c = 0)"
        by simp
    next
      assume "(\<forall>c \<in> fst ` set levelParams. \<forall>c' \<in> fst ` set levelParams.
             strings_Count c = strings_Count c') \<and>
         (\<forall>c \<in> fst ` set levelParams. strings_Count c = 0)"
      then show "\<forall>c \<in> fst ` set levelParams. strings_Count c = 0"
        by (rule conjunct2)
    qed
  qed
  from many have "levelValue unmarshal levelParams =
      (if shouldBeArray levelParams
          then Sequence (buildArrayFromMap unmarshal levelParams)
          else Mapping (buildNestedStructure unmarshal levelParams))"
    by (auto simp: levelValue_def split: list.splits)
  then show "processNestedLevel unmarshal result levelKey levelParams =
        AList.update levelKey
          (if shouldBeArray levelParams
           then Sequence (buildArrayFromMap unmarshal levelParams)
           else Mapping (buildNestedStructure unmarshal levelParams)) result"
    by (simp add: processNestedLevel_update)
next
  assume "length levelParams \<le> 1"
  then show "\<not> shouldBeArray levelParams" by (simp add: shouldBeArray_def)
qed

theorem array_or_object_policy_witness:
  "1 < length sample_flat_level \<and> shouldBeArray sample_flat_level \<and>
   processNestedLevel sample_json [] ''types'' sample_flat_level
     = [(''types'', Sequence [Number 1, Number 2])] \<and>
   1 < length sample_deep_level \<and> \<not> shouldBeArray sample_deep_level \<and>
   processNestedLevel sample_json [] ''user'' sample_deep_level
     = [(''user'', Mapping [(''name'', Str ''Ann''), (''address'', Mapping [(''zip'', Number 2)])])] \<and>
   length [(''.'', \<lparr>Name = ''/app/port'', Value = ''[1]''\<rparr>)] \<le> 1 \<and>
   \<not> shouldBeArray [(''.'', \<lparr>Name = ''/app/port'', Value = ''[1]''\<rparr>)]"
proof -
  have flat: "1 < length sample_flat_level" and deep: "1 < length sample_deep_level"
    by (simp_all add: sample_flat_level_def sample_deep_level_def)
  have one: "length [(''.'', \<lparr>Name = ''/app/port'', Value = ''[1]''\<rparr>)] \<le> 1" by simp
  have zero: "\<forall>c \<in> fst ` set sample_flat_level. strings_Count c = 0"
    by (simp add: sample_flat_level_def strings_Count_def)
  have nonzero: "\<not> (\<forall>c \<in> fst ` set sample_deep_level. strings_Count c = 0)"
    by (simp add: sample_deep_level_def strings_Count_def)
  have v1: "Sequence (buildArrayFromMap sample_json sample_flat_level) = Sequence [Number 1, Number 2]"
    by code_simp
  have v2: "Mapping (buildNestedStructure sample_json sample_deep_level)
     = Mapping [(''name'', Str ''Ann''), (''address'', Mapping [(''zip'', Number 2)])]"
    by code_simp
  from array_or_object_policy[of sample_flat_level sample_json "[]" "''types''"]
       array_or_object_policy[of sample_deep_level sample_json "[]" "''user''"]
       array_or_object_policy[of "[(''.'', \<lparr>Name = ''/app/port'', Value = ''[1]''\<rparr>)]"]
       flat deep one zero nonzero v1 v2
  show ?thesis by simp
qed

lemma range_map_append: "range_map (xs @ ys) m = range_map xs m @ range_map ys m"
  by (simp add: range_map_def)

lemma range_map_Cons:
  "range_map (k # ks) m = (case map_of m k of None \<Rightarrow> [] | Some v \<Rightarrow> [(k, v)]) @ range_map ks m"
  by (simp add: range_map_def)

lemma range_map_Nil: "range_map [] m = []"
  by (simp add: range_map_def)

lemma set_range_map: "set (range_map ord m) = {(k, v). k \<in> set ord \<and> map_of m k = Some v}"
  by (induction ord) (auto simp: range_map_Cons range_map_Nil split: option.splits)

lemma visits_single: "visits ord [(c, p)] \<Longrightarrow> ord = [c]"
proof -
  assume "visits ord [(c, p)]"
  then have d: "distinct ord" and s: "set ord = {c}" by (simp_all add: visits_def)
  show "ord = [c]"
  proof (cases ord)
    case Nil
    with s show ?thesis by simp
  next
    case (Cons x xs)
    with s have x: "x = c" by auto
    have "xs = []"
    proof (cases xs)
      case Nil
      then show ?thesis .
    next
      case (Cons y ys)
      with \<open>ord = x # xs\<close> s have "y = c" by auto
      with Cons \<open>ord = x # xs\<close> x d show ?thesis by simp
    qed
    with x Cons show ?thesis by simp
  qed
qed

lemma range_map_single: "visits ord [(c, p)] \<Longrightarrow> range_map ord [(c, p)] = [(c, p)]"
  by (drule visits_single) (simp add: range_map_def)

lemma visits_split:
  assumes "visits ord m" "map_of m k = Some v"
  shows "\<exists>pre post. ord = pre @ k # post \<and> k \<notin> set pre \<and> k \<notin> set post"
proof -
  from assms(2) have "k \<in> fst ` set m" by (auto dest: map_of_SomeD intro: rev_image_eqI)
  with assms(1) have "k \<in> set ord" and d: "distinct ord" by (simp_all add: visits_def)
  then obtain pre post where "ord = pre @ k # post" by (auto dest: split_list)
  with d show ?thesis by auto
qed

lemma processRootLevel_single:
  "processRootLevel unmarshal result [(k, q)]
     = AList.update k (parseParameterValue unmarshal (Value q)) result"
  by (simp add: processRootLevel_def)

lemma processRootLevel_cases:
  "processRootLevel unmarshal result levelParams =
     (if 1 < length levelParams
      then AList.update ''items'' (Sequence (buildArrayFromMap unmarshal levelParams)) result
      else case levelParams of
             [] \<Rightarrow> result
           | (k, q) # rest \<Rightarrow> AList.update k (parseParameterValue unmarshal (Value q)) result)"
proof (cases levelParams)
  case Nil
  then show ?thesis by (simp add: processRootLevel_def)
next
  case (Cons entry rest)
  obtain k q where "entry = (k, q)" by (cases entry)
  with Cons show ?thesis by (cases rest) (simp_all add: processRootLevel_def)
qed

lemma level_step_frame:
  "k \<notin> levelWrites corder x \<Longrightarrow> map_of (level_step unmarshal corder x result) k = map_of result k"
proof (cases x)
  case (Pair lk lp)
  assume "k \<notin> levelWrites corder x"
  with Pair show ?thesis
    by (auto simp: levelWrites_def level_step_def rootWrites_def processNestedLevel_update
          processRootLevel_cases update_conv' split: if_splits list.splits)
qed

lemma level_step_dom:
  "fst ` set (level_step unmarshal corder x result) = fst ` set result \<union> levelWrites corder x"
proof (cases x)
  case (Pair lk lp)
  then show ?thesis
    by (auto simp: levelWrites_def level_step_def rootWrites_def processNestedLevel_update
          processRootLevel_cases dom_update split: if_splits list.splits)
qed

lemma level_step_written:
  "k \<in> levelWrites corder x \<Longrightarrow>
     map_of (level_step unmarshal corder x result) k = map_of (level_step unmarshal corder x []) k"
proof (cases x)
  case (Pair lk lp)
  assume "k \<in> levelWrites corder x"
  with Pair show ?thesis
    by (auto simp: levelWrites_def level_step_def rootWrites_def processNestedLevel_update
          processRootLevel_cases update_conv' split: if_splits list.splits)
qed

lemma fold_level_step_frame:
  "\<forall>x \<in> set xs. k \<notin> levelWrites corder x \<Longrightarrow>
     map_of (fold (level_step unmarshal corder) xs result) k = map_of result k"
  by (induction xs arbitrary: result) (simp_all add: level_step_frame)

lemma fold_level_step_dom:
  "fst ` set (fold (level_step unmarshal corder) xs result)
     = fst ` set result \<union> (\<Union>x \<in> set xs. levelWrites corder x)"
  by (induction xs arbitrary: result) (auto simp: level_step_dom)

lemma buildGenericStructure_fold:
  "buildGenericStructure unmarshal lorder corder levels
     = fold (level_step unmarshal corder) (range_map lorder levels) []"
  by (simp add: buildGenericStructure_def level_step_def)

lemma single_writer:
  assumes ord: "visits lorder levels"
    and level: "map_of levels lk = Some lp"
    and writes: "k \<in> levelWrites corder (lk, lp)"
    and others: "\<forall>lk' lp'. lk' \<noteq> lk \<and> map_of levels lk' = Some lp' \<longrightarrow>
                   k \<notin> levelWrites corder (lk', lp')"
  shows "map_of (buildGenericStructure unmarshal lorder corder levels) k
           = map_of (level_step unmarshal corder (lk, lp) []) k"
proof -
  from visits_split[OF ord level] obtain pre post where
    split: "lorder = pre @ lk # post" and pre: "lk \<notin> set pre" and post: "lk \<notin> set post"
    by blast
  have quiet: "\<forall>x \<in> set (range_map ks levels). k \<notin> levelWrites corder x" if "lk \<notin> set ks" for ks
    using that others by (auto simp: set_range_map)
  have "range_map lorder levels = range_map pre levels @ (lk, lp) # range_map post levels"
    by (simp add: split range_map_append range_map_Cons level)
  then have "map_of (buildGenericStructure unmarshal lorder corder levels) k =
      map_of (level_step unmarshal corder (lk, lp)
                (fold (level_step unmarshal corder) (range_map pre levels) [])) k"
    by (simp add: buildGenericStructure_fold fold_level_step_frame[OF quiet[OF post]])
  also have "\<dots> = map_of (level_step unmarshal corder (lk, lp) []) k"
    by (rule level_step_written[OF writes])
  finally show ?thesis .
qed

lemma set_update_subset: "set (AList.update k v al) \<subseteq> insert (k, v) (set al)"
  by (induction al) auto

lemma level_put_root:
  "map_of (level_put levels lk ck param) ''.'' =
     (if lk = ''.''
      then Some (AList.update ck param (case map_of levels ''.'' of None \<Rightarrow> [] | Some m \<Rightarrow> m))
      else map_of levels ''.'')"
  by (simp add: level_put_def update_conv')

lemma root_keyed_put:
  assumes "root_keyed basePath stripPrefix levels"
    and "lk = ''.'' \<and> extractRelativePath (Name param) basePath stripPrefix = []
           \<longrightarrow> ck = getLastPathSegment (Name param)"
  shows "root_keyed basePath stripPrefix (level_put levels lk ck param)"
  unfolding root_keyed_def
proof (intro allI impI)
  fix lv k q
  assume a: "map_of (level_put levels lk ck param) ''.'' = Some lv \<and> (k, q) \<in> set lv \<and>
        extractRelativePath (Name q) basePath stripPrefix = []"
  show "k = getLastPathSegment (Name q)"
  proof (cases "lk = ''.''")
    case False
    with a assms(1) show ?thesis by (auto simp: level_put_root root_keyed_def)
  next
    case True
    with a have lv: "lv = AList.update ck param (case map_of levels ''.'' of None \<Rightarrow> [] | Some m \<Rightarrow> m)"
      by (simp add: level_put_root)
    with a set_update_subset[of ck param "case map_of levels ''.'' of None \<Rightarrow> [] | Some m \<Rightarrow> m"]
    have "(k, q) = (ck, param) \<or> (k, q) \<in> set (case map_of levels ''.'' of None \<Rightarrow> [] | Some m \<Rightarrow> m)"
      by auto
    then show ?thesis
    proof
      assume "(k, q) = (ck, param)"
      with a assms(2) True show ?thesis by simp
    next
      assume "(k, q) \<in> set (case map_of levels ''.'' of None \<Rightarrow> [] | Some m \<Rightarrow> m)"
      then obtain old where "map_of levels ''.'' = Some old" "(k, q) \<in> set old"
        by (cases "map_of levels ''.''") auto
      with a assms(1) show ?thesis unfolding root_keyed_def by blast
    qed
  qed
qed

lemma root_keyed_step:
  "root_keyed basePath stripPrefix levels \<Longrightarrow>
   root_keyed basePath stripPrefix (organize_step basePath stripPrefix param levels)"
  by (simp add: organize_step_def Let_def root_keyed_put)

lemma root_keyed_fold:
  "root_keyed basePath stripPrefix levels \<Longrightarrow>
   root_keyed basePath stripPrefix (fold (organize_step basePath stripPrefix) params levels)"
  by (induction params arbitrary: levels) (simp_all add: root_keyed_step)

lemma root_keyed_organize:
  "root_keyed basePath stripPrefix (organizeParametersByLevel params basePath stripPrefix)"
  unfolding organizeParametersByLevel_def
  by (rule root_keyed_fold) (simp add: root_keyed_def)

lemma orders_ok_child:
  "orders_ok lorder corder levels \<Longrightarrow> map_of levels lk = Some lp \<Longrightarrow> visits (corder lk) lp"
  by (auto simp: orders_ok_def list_all_iff dest!: map_of_SomeD)

text \<open>
  Claim C6, amended. When the root level holds exactly one entry, for a parameter whose
  relative path is empty, and no nested level is named by that entry's key, the key is
  the last segment of the parameter's name and the assembled tree maps it to the parsed
  value itself, for every visiting order of the level maps.
\<close>

theorem single_root_entry:
  assumes root: "map_of (organizeParametersByLevel params basePath stripPrefix) ''.'' = Some [(k, q)]"
    and genuine: "extractRelativePath (Name q) basePath stripPrefix = []"
    and alone: "k = ''.'' \<or> map_of (organizeParametersByLevel params basePath stripPrefix) k = None"
    and ok: "orders_ok lorder corder (organizeParametersByLevel params basePath stripPrefix)"
  shows "k = getLastPathSegment (Name q) \<and>
         map_of (buildStructure unmarshal lorder corder params basePath stripPrefix sortByDependencies) k
           = Some (parseParameterValue unmarshal (Value q))"
proof
  let ?levels = "organizeParametersByLevel params basePath stripPrefix"
  from root_keyed_organize[of basePath stripPrefix params] root genuine
  show "k = getLastPathSegment (Name q)"
    unfolding root_keyed_def by auto
  from root have nonempty: "params \<noteq> []"
    by (auto simp: organizeParametersByLevel_def)
  have child: "range_map (corder ''.'') [(k, q)] = [(k, q)]"
    by (rule range_map_single[OF orders_ok_child[OF ok root]])
  have writes: "k \<in> levelWrites corder (''.'', [(k, q)])"
    by (simp add: levelWrites_def child rootWrites_def)
  have others: "\<forall>lk' lp'. lk' \<noteq> ''.'' \<and> map_of ?levels lk' = Some lp' \<longrightarrow>
                   k \<notin> levelWrites corder (lk', lp')"
    using alone by (auto simp: levelWrites_def)
  from ok have "visits lorder ?levels" by (simp add: orders_ok_def)
  from single_writer[OF this root writes others, of unmarshal]
  have "map_of (buildGenericStructure unmarshal lorder corder ?levels) k
           = Some (parseParameterValue unmarshal (Value q))"
    by (simp add: level_step_def child processRootLevel_single update_conv')
  with nonempty show "map_of (buildStructure unmarshal lorder corder params basePath stripPrefix sortByDependencies) k
           = Some (parseParameterValue unmarshal (Value q))"
    by (simp add: buildStructure_def)
qed

text \<open>
  Claim C6, as stated, fails: with the parameters \<^verbatim>\<open>/p\<close> and \<^verbatim>\<open>/p/p\<close> under the
  prefix \<^verbatim>\<open>/p\<close> the root level holds the single entry \<open>p\<close>, and the nested level
  \<open>p\<close> writes the same key of the result; visited after the root level, it leaves the
  other parameter's value there.
\<close>

theorem single_root_entry_counterexample:
  "map_of (organizeParametersByLevel
             [\<lparr>Name = ''/p'', Value = ''1''\<rparr>, \<lparr>Name = ''/p/p'', Value = ''2''\<rparr>] ''/p'' True) ''.''
     = Some [(''p'', \<lparr>Name = ''/p'', Value = ''1''\<rparr>)] \<and>
   getLastPathSegment ''/p'' = ''p'' \<and>
   parseParameterValue sample_json ''1'' = Number 1 \<and>
   orders_ok [''.'', ''p''] root_first_childOrder
     (organizeParametersByLevel
        [\<lparr>Name = ''/p'', Value = ''1''\<rparr>, \<lparr>Name = ''/p/p'', Value = ''2''\<rparr>] ''/p'' True) \<and>
   map_of (buildStructure sample_json [''.'', ''p''] root_first_childOrder
             [\<lparr>Name = ''/p'', Value = ''1''\<rparr>, \<lparr>Name = ''/p/p'', Value = ''2''\<rparr>] ''/p'' True False) ''p''
     = Some (Number 2)"
  by code_simp

theorem single_root_entry_witness:
  "map_of (organizeParametersByLevel
             [\<lparr>Name = ''/p'', Value = ''1''\<rparr>, \<lparr>Name = ''/p/q'', Value = ''2''\<rparr>] ''/p'' True) ''.''
     = Some [(''p'', \<lparr>Name = ''/p'', Value = ''1''\<rparr>)] \<and>
   extractRelativePath ''/p'' ''/p'' True = [] \<and>
   map_of (organizeParametersByLevel
             [\<lparr>Name = ''/p'', Value = ''1''\<rparr>, \<lparr>Name = ''/p/q'', Value = ''2''\<rparr>] ''/p'' True) ''p'' = None \<and>
   orders_ok [''q'', ''.''] root_first_childOrder
     (organizeParametersByLevel
        [\<lparr>Name = ''/p'', Value = ''1''\<rparr>, \<lparr>Name = ''/p/q'', Value = ''2''\<rparr>] ''/p'' True) \<and>
   ''p'' = getLastPathSegment ''/p'' \<and>
   map_of (buildStructure sample_json [''q'', ''.''] root_first_childOrder
             [\<lparr>Name = ''/p'', Value = ''1''\<rparr>, \<lparr>Name = ''/p/q'', Value = ''2''\<rparr>] ''/p'' True False) ''p''
     = Some (Number 1)"
proof -
  let ?params = "[\<lparr>Name = ''/p'', Value = ''1''\<rparr>, \<lparr>Name = ''/p/q'', Value = ''2''\<rparr>]"
  have root: "map_of (organizeParametersByLevel ?params ''/p'' True) ''.''
     = Some [(''p'', \<lparr>Name = ''/p'', Value = ''1''\<rparr>)]"
    by code_simp
  have genuine: "extractRelativePath (Name \<lparr>Name = ''/p'', Value = ''1''\<rparr>) ''/p'' True = []"
    by code_simp
  have alone: "''p'' = ''.'' \<or> map_of (organizeParametersByLevel ?params ''/p'' True) ''p'' = None"
    by code_simp
  have ok: "orders_ok [''q'', ''.''] root_first_childOrder
     (organizeParametersByLevel ?params ''/p'' True)"
    by code_simp
  have v: "parseParameterValue sample_json ''1'' = Number 1"
    by code_simp
  from single_root_entry[OF root genuine alone ok, of sample_json False] root genuine alone ok v
  show ?thesis by simp
qed

lemma scenario_levels:
  "organizeParametersByLevel
     [\<lparr>Name = ''/p/a'', Value = ''1''\<rparr>, \<lparr>Name = ''/p/b'', Value = ''2''\<rparr>] ''/p'' True
   = [(''a'', [(''.'', \<lparr>Name = ''/p/a'', Value = ''1''\<rparr>)]),
      (''b'', [(''.'', \<lparr>Name = ''/p/b'', Value = ''2''\<rparr>)])]"
  by code_simp

lemma nested_dot_level:
  assumes "visits (corder lk) [(''.'', param)]" "lk \<noteq> ''.''"
  shows "level_step unmarshal corder (lk, [(''.'', param)]) []
           = [(lk, parseParameterValue unmarshal (Value param))]"
  using assms(2) by (simp add: level_step_def range_map_single[OF assms(1)] processNestedLevel_def)

text \<open>
  Claim C5, amended. The parameters \<^verbatim>\<open>/p/a\<close> = "1" and \<^verbatim>\<open>/p/b\<close> = "2", built with
  prefix \<^verbatim>\<open>/p\<close> and the prefix stripped, give a root mapping with exactly the two keys
  \<open>a\<close> and \<open>b\<close>, holding the numbers 1 and 2, for every visiting order of the level
  maps: each parameter is a level of its own, not an entry of the root level.
\<close>

theorem scenario_two_parameters:
  assumes one: "unmarshal ''1'' = Some (Number 1)"
    and two: "unmarshal ''2'' = Some (Number 2)"
    and ok: "orders_ok lorder corder
               (organizeParametersByLevel
                  [\<lparr>Name = ''/p/a'', Value = ''1''\<rparr>, \<lparr>Name = ''/p/b'', Value = ''2''\<rparr>] ''/p'' True)"
  shows "map_of (buildStructure unmarshal lorder corder
                   [\<lparr>Name = ''/p/a'', Value = ''1''\<rparr>, \<lparr>Name = ''/p/b'', Value = ''2''\<rparr>]
                   ''/p'' True sortByDependencies) ''a'' = Some (Number 1) \<and>
         map_of (buildStructure unmarshal lorder corder
                   [\<lparr>Name = ''/p/a'', Value = ''1''\<rparr>, \<lparr>Name = ''/p/b'', Value = ''2''\<rparr>]
                   ''/p'' True sortByDependencies) ''b'' = Some (Number 2) \<and>
         fst ` set (buildStructure unmarshal lorder corder
                   [\<lparr>Name = ''/p/a'', Value = ''1''\<rparr>, \<lparr>Name = ''/p/b'', Value = ''2''\<rparr>]
                   ''/p'' True sortByDependencies) = {''a'', ''b''}"
proof -
  let ?pa = "\<lparr>Name = ''/p/a'', Value = ''1''\<rparr>" and ?pb = "\<lparr>Name = ''/p/b'', Value = ''2''\<rparr>"
  let ?levels = "[(''a'', [(''.'', ?pa)]), (''b'', [(''.'', ?pb)])]"
  have t: "buildStructure unmarshal lorder corder [?pa, ?pb] ''/p'' True sortByDependencies
             = buildGenericStructure unmarshal lorder corder ?levels"
    by (simp add: buildStructure_def scenario_levels)
  from ok have ok': "orders_ok lorder corder ?levels" by (simp add: scenario_levels)
  then have order: "visits lorder ?levels" by (simp add: orders_ok_def)
  have la: "map_of ?levels ''a'' = Some [(''.'', ?pa)]" and lb: "map_of ?levels ''b'' = Some [(''.'', ?pb)]"
    by simp_all
  have va: "visits (corder ''a'') [(''.'', ?pa)]" by (rule orders_ok_child[OF ok' la])
  have vb: "visits (corder ''b'') [(''.'', ?pb)]" by (rule orders_ok_child[OF ok' lb])
  have a: "map_of (buildGenericStructure unmarshal lorder corder ?levels) ''a'' = Some (Number 1)"
  proof -
    have "''a'' \<in> levelWrites corder (''a'', [(''.'', ?pa)])" by (simp add: levelWrites_def)
    moreover have "\<forall>lk' lp'. lk' \<noteq> ''a'' \<and> map_of ?levels lk' = Some lp' \<longrightarrow>
                   ''a'' \<notin> levelWrites corder (lk', lp')"
      by (simp add: levelWrites_def)
    ultimately have "map_of (buildGenericStructure unmarshal lorder corder ?levels) ''a''
           = map_of (level_step unmarshal corder (''a'', [(''.'', ?pa)]) []) ''a''"
      by (rule single_writer[OF order la])
    also have "\<dots> = Some (Number 1)"
      by (simp add: nested_dot_level[of corder "''a''", OF va] parseParameterValue_def one)
    finally show ?thesis .
  qed
  have b: "map_of (buildGenericStructure unmarshal lorder corder ?levels) ''b'' = Some (Number 2)"
  proof -
    have "''b'' \<in> levelWrites corder (''b'', [(''.'', ?pb)])" by (simp add: levelWrites_def)
    moreover have "\<forall>lk' lp'. lk' \<noteq> ''b'' \<and> map_of ?levels lk' = Some lp' \<longrightarrow>
                   ''b'' \<notin> levelWrites corder (lk', lp')"
      by (simp add: levelWrites_def)
    ultimately have "map_of (buildGenericStructure unmarshal lorder corder ?levels) ''b''
           = map_of (level_step unmarshal corder (''b'', [(''.'', ?pb)]) []) ''b''"
      by (rule single_writer[OF order lb])
    also have "\<dots> = Some (Number 2)"
      by (simp add: nested_dot_level[of corder "''b''", OF vb] parseParameterValue_def two)
    finally show ?thesis .
  qed
  have keys: "set lorder = {''a'', ''b''}"
    using order by (simp add: visits_def)
  have "(\<Union>x \<in> set (range_map lorder ?levels). levelWrites corder x) = {''a'', ''b''}"
  proof (rule set_eqI)
    fix k
    have "k \<in> (\<Union>x \<in> set (range_map lorder ?levels). levelWrites corder x)
            \<longleftrightarrow> (\<exists>lk lp. lk \<in> set lorder \<and> map_of ?levels lk = Some lp \<and> k \<in> levelWrites corder (lk, lp))"
      by (auto simp: set_range_map)
    also have "\<dots> \<longleftrightarrow> k = ''a'' \<or> k = ''b''"
      unfolding keys by (auto simp: levelWrites_def)
    finally show "k \<in> (\<Union>x \<in> set (range_map lorder ?levels). levelWrites corder x)
            \<longleftrightarrow> k \<in> {''a'', ''b''}"
      by simp
  qed
  then have d: "fst ` set (buildGenericStructure unmarshal lorder corder ?levels) = {''a'', ''b''}"
    by (simp add: buildGenericStructure_fold fold_level_step_dom)
  from a b d show ?thesis unfolding t by simp
qed

text \<open>
  Claim C5, as stated, fails: the document of the scenario has no key \<open>items\<close>.
\<close>

theorem scenario_two_parameters_counterexample:
  "orders_ok [''a'', ''b''] (sample_childOrder ''/p'')
     (organizeParametersByLevel
        [\<lparr>Name = ''/p/a'', Value = ''1''\<rparr>, \<lparr>Name = ''/p/b'', Value = ''2''\<rparr>] ''/p'' True) \<and>
   buildStructure sample_json [''a'', ''b''] (sample_childOrder ''/p'')
     [\<lparr>Name = ''/p/a'', Value = ''1''\<rparr>, \<lparr>Name = ''/p/b'', Value = ''2''\<rparr>] ''/p'' True False
     = [(''a'', Number 1), (''b'', Number 2)] \<and>
   map_of (buildStructure sample_json [''a'', ''b''] (sample_childOrder ''/p'')
     [\<lparr>Name = ''/p/a'', Value = ''1''\<rparr>, \<lparr>Name = ''/p/b'', Value = ''2''\<rparr>] ''/p'' True False) ''items''
     = None"
  by code_simp

theorem scenario_two_parameters_witness:
  "sample_json ''1'' = Some (Number 1) \<and> sample_json ''2'' = Some (Number 2) \<and>
   orders_ok [''b'', ''a''] (sample_childOrder ''/p'')
     (organizeParametersByLevel
        [\<lparr>Name = ''/p/a'', Value = ''1''\<rparr>, \<lparr>Name = ''/p/b'', Value = ''2''\<rparr>] ''/p'' True) \<and>
   map_of (buildStructure sample_json [''b'', ''a''] (sample_childOrder ''/p'')
                   [\<lparr>Name = ''/p/a'', Value = ''1''\<rparr>, \<lparr>Name = ''/p/b'', Value = ''2''\<rparr>]
                   ''/p'' True False) ''a'' = Some (Number 1) \<and>
   map_of (buildStructure sample_json [''b'', ''a''] (sample_childOrder ''/p'')
                   [\<lparr>Name = ''/p/a'', Value = ''1''\<rparr>, \<lparr>Name = ''/p/b'', Value = ''2''\<rparr>]
                   ''/p'' True False) ''b'' = Some (Number 2) \<and>
   fst ` set (buildStructure sample_json [''b'', ''a''] (sample_childOrder ''/p'')
                   [\<lparr>Name = ''/p/a'', Value = ''1''\<rparr>, \<lparr>Name = ''/p/b'', Value = ''2''\<rparr>]
                   ''/p'' True False) = {''a'', ''b''}"
proof -
  have one: "sample_json ''1'' = Some (Number 1)" and two: "sample_json ''2'' = Some (Number 2)"
    by (simp_all add: sample_json_def)
  have ok: "orders_ok [''b'', ''a''] (sample_childOrder ''/p'')
     (organizeParametersByLevel
        [\<lparr>Name = ''/p/a'', Value = ''1''\<rparr>, \<lparr>Name = ''/p/b'', Value = ''2''\<rparr>] ''/p'' True)"
    by code_simp
  from scenario_two_parameters[OF one two ok, of False] one two ok show ?thesis by simp
qed

section \<open>YAML rules: facts\<close>




























section \<open>Dependency sort: the graph of the declared types\<close>

lemma collect_step_nameOf:
  "collect_step t (typeDefinitions, typeNames) =
     (case nameOf t of
        None \<Rightarrow> (typeDefinitions, typeNames)
      | Some name \<Rightarrow> (AList.update name t typeDefinitions, AList.update name True typeNames))"
  by (simp add: collect_step_def nameOf_def split: node.splits option.splits)

lemma collect_fold_names:
  "map_of (snd (fold collect_step ts (defs, tn))) n =
     (if n \<in> declared ts then Some True else map_of tn n)"
proof (induction ts arbitrary: defs tn)
  case Nil
  show ?case by (simp add: declared_def)
next
  case (Cons t ts)
  show ?case
  proof (cases "nameOf t")
    case None
    then show ?thesis using Cons.IH[of defs tn]
      by (auto simp: collect_step_nameOf declared_def)
  next
    case (Some name)
    then show ?thesis
      using Cons.IH[of "AList.update name t defs" "AList.update name True tn"]
      by (auto simp: collect_step_nameOf declared_def update_conv')
  qed
qed

lemma collect_fold_defs:
  "map_of (fst (fold collect_step ts (defs, tn))) n = Some t \<Longrightarrow>
     (t \<in> set ts \<and> nameOf t = Some n) \<or> map_of defs n = Some t"
proof (induction ts arbitrary: defs tn)
  case Nil
  then show ?case by simp
next
  case (Cons x xs)
  show ?case
  proof (cases "nameOf x")
    case None
    with Cons.prems Cons.IH[of defs tn] show ?thesis
      by (auto simp: collect_step_nameOf)
  next
    case (Some name)
    with Cons.prems Cons.IH[of "AList.update name x defs" "AList.update name True tn"]
    show ?thesis
      by (auto simp: collect_step_nameOf update_conv' split: if_splits)
  qed
qed

lemma collect_fold_defs_dom:
  "fst ` set (fst (fold collect_step ts (defs, tn))) = fst ` set defs \<union> declared ts"
proof (induction ts arbitrary: defs tn)
  case Nil
  show ?case by (simp add: declared_def)
next
  case (Cons x xs)
  show ?case
  proof (cases "nameOf x")
    case None
    then show ?thesis using Cons.IH[of defs tn]
      by (auto simp: collect_step_nameOf declared_def)
  next
    case (Some name)
    then show ?thesis
      using Cons.IH[of "AList.update name x defs" "AList.update name True tn"]
      by (auto simp: collect_step_nameOf declared_def dom_update)
  qed
qed

lemma typeNames_lookup:
  "map_of (snd (collectTypes rawTypes)) n = (if n \<in> declared rawTypes then Some True else None)"
  by (simp add: collectTypes_def collect_fold_names)

lemma typeNames_declared:
  "map_of (snd (collectTypes rawTypes)) n \<noteq> None \<longleftrightarrow> n \<in> declared rawTypes"
  by (auto simp: typeNames_lookup)

lemma typeNames_keys: "fst ` set (snd (collectTypes rawTypes)) = declared rawTypes"
proof (rule set_eqI)
  fix n
  have "n \<in> fst ` set (snd (collectTypes rawTypes)) \<longleftrightarrow> map_of (snd (collectTypes rawTypes)) n \<noteq> None"
    by (simp only: map_of_eq_None_iff not_not)
  then show "n \<in> fst ` set (snd (collectTypes rawTypes)) \<longleftrightarrow> n \<in> declared rawTypes"
    by (simp only: typeNames_declared)
qed

lemma typeDefinitions_declared:
  assumes "n \<in> declared rawTypes"
  shows "defOf (fst (collectTypes rawTypes)) n \<in> set rawTypes \<and>
         nameOf (defOf (fst (collectTypes rawTypes)) n) = Some n"
proof -
  from assms have "n \<in> fst ` set (fst (collectTypes rawTypes))"
    by (simp add: collectTypes_def collect_fold_defs_dom)
  then obtain t where t: "map_of (fst (collectTypes rawTypes)) n = Some t"
    by (cases "map_of (fst (collectTypes rawTypes)) n") (auto simp: map_of_eq_None_iff)
  then have "t \<in> set rawTypes \<and> nameOf t = Some n"
    using collect_fold_defs[of rawTypes "[]" "[]" n t] by (simp add: collectTypes_def)
  with t show ?thesis by (simp add: defOf_def)
qed

lemma collectTypes_defs_Mapping:
  "map_of (fst (collectTypes rawTypes)) n = Some t \<Longrightarrow> \<exists>typeMap. t = Mapping typeMap"
proof -
  assume "map_of (fst (collectTypes rawTypes)) n = Some t"
  then have "nameOf t = Some n"
    using collect_fold_defs[of rawTypes "[]" "[]" n t] by (simp add: collectTypes_def)
  then show ?thesis by (cases t) (simp_all add: nameOf_def)
qed

lemma processArg_refs:
  "processArg typeNames name a g = fold (addDependency typeNames name) (argRefs a) g"
  by (simp add: processArg_def argRefs_def split: node.splits option.splits)

lemma fold_processArg_refs:
  "fold (processArg typeNames name) args g
     = fold (addDependency typeNames name) (concat (map argRefs args)) g"
  by (induction args arbitrary: g) (simp_all add: processArg_refs)

lemma processField_refs:
  "processField typeNames name f g = fold (addDependency typeNames name) (fieldRefs f) g"
  by (simp add: processField_def fieldRefs_def fold_processArg_refs Let_def
           split: node.splits option.splits)

lemma fold_processField_refs:
  "fold (processField typeNames name) fieldList g
     = fold (addDependency typeNames name) (concat (map fieldRefs fieldList)) g"
  by (induction fieldList arbitrary: g) (simp_all add: processField_refs)

lemma processType_refs:
  "processType typeDefinitions typeNames name g
     = fold (addDependency typeNames name) (typeRefs (defOf typeDefinitions name)) g"
  by (simp add: processType_def typeRefs_def fold_processField_refs
           split: node.splits option.splits)

lemma adjOf_update: "adjOf (AList.update k v adj) d = (if d = k then v else adjOf adj d)"
  by (simp add: adjOf_def update_conv')

lemma addDependency_apply:
  "addDependency typeNames name d (adj, grau) =
     (if map_of typeNames d \<noteq> None
      then (AList.update d (adjOf adj d @ [name]) adj,
            AList.update name (grauOf grau name + 1) grau)
      else (adj, grau))"
  by (simp add: addDependency_def)

lemma addDependency_fold:
  "fold (addDependency typeNames name) refs (adj, grau) = (adj', grau') \<Longrightarrow>
     (\<forall>d. adjOf adj' d = adjOf adj d @
             replicate (if map_of typeNames d \<noteq> None then count_list refs d else 0) name) \<and>
     (\<forall>m. grauOf grau' m = grauOf grau m +
             (if m = name then int (length (filter (\<lambda>d. map_of typeNames d \<noteq> None) refs)) else 0)) \<and>
     fst ` set grau' \<subseteq> insert name (fst ` set grau) \<and>
     fst ` set grau \<subseteq> fst ` set grau'"
proof (induction refs arbitrary: adj grau)
  case Nil
  then show ?case by auto
next
  case (Cons r refs)
  show ?case
  proof (cases "map_of typeNames r \<noteq> None")
    case False
    with Cons.prems have "fold (addDependency typeNames name) refs (adj, grau) = (adj', grau')"
      by (simp add: addDependency_apply)
    from Cons.IH[OF this] False show ?thesis by auto
  next
    case True
    let ?adj1 = "AList.update r (adjOf adj r @ [name]) adj"
    let ?grau1 = "AList.update name (grauOf grau name + 1) grau"
    from True Cons.prems have "fold (addDependency typeNames name) refs (?adj1, ?grau1) = (adj', grau')"
      by (simp add: addDependency_apply)
    from Cons.IH[OF this] have
      a: "\<forall>d. adjOf adj' d = adjOf ?adj1 d @
             replicate (if map_of typeNames d \<noteq> None then count_list refs d else 0) name"
      and g: "\<forall>m. grauOf grau' m = grauOf ?grau1 m +
             (if m = name then int (length (filter (\<lambda>d. map_of typeNames d \<noteq> None) refs)) else 0)"
      and k: "fst ` set grau' \<subseteq> insert name (fst ` set ?grau1)"
      and k': "fst ` set ?grau1 \<subseteq> fst ` set grau'"
      by blast+
    have "\<forall>d. adjOf adj' d = adjOf adj d @
             replicate (if map_of typeNames d \<noteq> None then count_list (r # refs) d else 0) name"
    proof
      fix d
      show "adjOf adj' d = adjOf adj d @
             replicate (if map_of typeNames d \<noteq> None then count_list (r # refs) d else 0) name"
        using a[rule_format, of d] True
        by (cases "d = r") (simp_all add: adjOf_update replicate_app_Cons_same)
    qed
    moreover have "\<forall>m. grauOf grau' m = grauOf grau m +
             (if m = name then int (length (filter (\<lambda>d. map_of typeNames d \<noteq> None) (r # refs))) else 0)"
      using g True by (simp add: grauOf_update)
    moreover have "fst ` set grau' \<subseteq> insert name (fst ` set grau)"
      using k unfolding dom_update by blast
    moreover have "fst ` set grau \<subseteq> fst ` set grau'"
      using k' unfolding dom_update by blast
    ultimately show ?thesis by blast
  qed
qed

lemma count_list_replicate: "count_list (replicate k x) y = (if x = y then k else 0)"
  by (induction k) auto

lemma typeNames_Some:
  "(\<exists>y. map_of (snd (collectTypes rawTypes)) n = Some y) \<longleftrightarrow> n \<in> declared rawTypes"
  by (auto simp: typeNames_lookup)

lemma typeNames_None:
  "map_of (snd (collectTypes rawTypes)) n = None \<longleftrightarrow> n \<notin> declared rawTypes"
  by (auto simp: typeNames_lookup)

lemma count_list_filter: "count_list (filter P xs) y = (if P y then count_list xs y else 0)"
  by (induction xs) simp_all

lemma initGraph_fold:
  "fold (\<lambda>name (adjacencia, grauEntrada).
             (AList.update name [] adjacencia, AList.update name 0 grauEntrada))
          names (adj, grau) = (adj', grau') \<Longrightarrow>
   (\<forall>d. adjOf adj' d = (if d \<in> set names then [] else adjOf adj d)) \<and>
   (\<forall>m. grauOf grau' m = (if m \<in> set names then 0 else grauOf grau m)) \<and>
   fst ` set grau' = fst ` set grau \<union> set names"
proof (induction names arbitrary: adj grau)
  case Nil
  then show ?case by simp
next
  case (Cons n names)
  from Cons.prems have "fold (\<lambda>name (adjacencia, grauEntrada).
             (AList.update name [] adjacencia, AList.update name 0 grauEntrada))
          names (AList.update n [] adj, AList.update n 0 grau) = (adj', grau')"
    by simp
  from Cons.IH[OF this] show ?case
    by (auto simp: adjOf_update grauOf_update dom_update)
qed

lemma initGraph_facts:
  "initGraph names = (adj, grau) \<Longrightarrow>
     (\<forall>d. adjOf adj d = []) \<and> (\<forall>m. grauOf grau m = 0) \<and> fst ` set grau = set names"
  unfolding initGraph_def
  by (drule initGraph_fold) (simp add: adjOf_def grauOf_def)

lemma graph_fold:
  assumes "fold (\<lambda>name. fold (addDependency typeNames name) (refs name)) names (adj, grau)
             = (adj', grau')"
    and "distinct names"
  shows "(\<forall>d e. count_list (adjOf adj' d) e = count_list (adjOf adj d) e +
            (if e \<in> set names \<and> map_of typeNames d \<noteq> None then count_list (refs e) d else 0)) \<and>
         (\<forall>m. grauOf grau' m = grauOf grau m +
            (if m \<in> set names
             then int (length (filter (\<lambda>d. map_of typeNames d \<noteq> None) (refs m))) else 0)) \<and>
         fst ` set grau' \<subseteq> fst ` set grau \<union> set names \<and>
         fst ` set grau \<subseteq> fst ` set grau'"
  using assms
proof (induction names arbitrary: adj grau)
  case Nil
  then show ?case by simp
next
  case (Cons n names)
  obtain adj1 grau1 where first: "fold (addDependency typeNames n) (refs n) (adj, grau) = (adj1, grau1)"
    by (cases "fold (addDependency typeNames n) (refs n) (adj, grau)")
  with Cons.prems(1) have rest:
    "fold (\<lambda>name. fold (addDependency typeNames name) (refs name)) names (adj1, grau1) = (adj', grau')"
    by simp
  from Cons.prems(2) have fresh: "n \<notin> set names" and dist: "distinct names" by simp_all
  from addDependency_fold[OF first] have
    a1: "\<And>d. adjOf adj1 d = adjOf adj d @
             replicate (if map_of typeNames d \<noteq> None then count_list (refs n) d else 0) n"
    and g1: "\<And>m. grauOf grau1 m = grauOf grau m +
             (if m = n then int (length (filter (\<lambda>d. map_of typeNames d \<noteq> None) (refs n))) else 0)"
    and k1: "fst ` set grau1 \<subseteq> insert n (fst ` set grau)"
    and k1': "fst ` set grau \<subseteq> fst ` set grau1"
    by blast+
  from Cons.IH[OF rest dist] have
    a2: "\<And>d e. count_list (adjOf adj' d) e = count_list (adjOf adj1 d) e +
            (if e \<in> set names \<and> map_of typeNames d \<noteq> None then count_list (refs e) d else 0)"
    and g2: "\<And>m. grauOf grau' m = grauOf grau1 m +
            (if m \<in> set names
             then int (length (filter (\<lambda>d. map_of typeNames d \<noteq> None) (refs m))) else 0)"
    and k2: "fst ` set grau' \<subseteq> fst ` set grau1 \<union> set names"
    and k2': "fst ` set grau1 \<subseteq> fst ` set grau'"
    by blast+
  have "\<forall>d e. count_list (adjOf adj' d) e = count_list (adjOf adj d) e +
            (if e \<in> set (n # names) \<and> map_of typeNames d \<noteq> None then count_list (refs e) d else 0)"
    using fresh by (auto simp: a2 a1 count_list_replicate)
  moreover have "\<forall>m. grauOf grau' m = grauOf grau m +
            (if m \<in> set (n # names)
             then int (length (filter (\<lambda>d. map_of typeNames d \<noteq> None) (refs m))) else 0)"
    using fresh by (auto simp: g2 g1)
  moreover have "fst ` set grau' \<subseteq> fst ` set grau \<union> set (n # names)"
  proof -
    from k1 k2 have "fst ` set grau' \<subseteq> insert n (fst ` set grau) \<union> set names" by blast
    then show ?thesis by auto
  qed
  moreover have "fst ` set grau \<subseteq> fst ` set grau'"
    using k1' k2' by blast
  ultimately show ?case by blast
qed

lemma range_map_keys: "visits ord m \<Longrightarrow> map fst (range_map ord m) = ord"
proof -
  assume "visits ord m"
  then have "set ord \<subseteq> fst ` set m" by (simp add: visits_def)
  then show "map fst (range_map ord m) = ord"
  proof (induction ord)
    case Nil
    show ?case by (simp add: range_map_Nil)
  next
    case (Cons k ks)
    then have "map_of m k \<noteq> None" by (simp add: map_of_eq_None_iff)
    with Cons show ?case by (auto simp: range_map_Cons)
  qed
qed

lemma buildGraph_facts:
  assumes ord1: "visits ord1 (snd (collectTypes rawTypes))"
    and ord2: "visits ord2 (snd (collectTypes rawTypes))"
    and built: "buildGraph ord1 ord2 rawTypes = (adj, grau)"
  shows "graph_ok (declared rawTypes) (predsOf rawTypes) adj"
    and "\<forall>n \<in> declared rawTypes. grauOf grau n = int (length (predsOf rawTypes n))"
    and "fst ` set grau = declared rawTypes"
proof -
  let ?defs = "fst (collectTypes rawTypes)" and ?tn = "snd (collectTypes rawTypes)"
  let ?refs = "\<lambda>name. typeRefs (defOf ?defs name)"
  obtain adj0 grau0 where init: "initGraph (map fst (range_map ord1 ?tn)) = (adj0, grau0)"
    by (cases "initGraph (map fst (range_map ord1 ?tn))")
  have names1: "map fst (range_map ord1 ?tn) = ord1" by (rule range_map_keys[OF ord1])
  have names2: "map fst (range_map ord2 ?tn) = ord2" by (rule range_map_keys[OF ord2])
  from ord1 have set1: "set ord1 = declared rawTypes" by (simp add: visits_def typeNames_keys)
  from ord2 have set2: "set ord2 = declared rawTypes" and dist2: "distinct ord2"
    by (simp_all add: visits_def typeNames_keys)
  from initGraph_facts[OF init] names1 set1 have
    adj0: "\<And>d. adjOf adj0 d = []" and grau0: "\<And>m. grauOf grau0 m = 0"
    and keys0: "fst ` set grau0 = declared rawTypes"
    by simp_all
  have procs: "processType ?defs ?tn = (\<lambda>name. fold (addDependency ?tn name) (?refs name))"
    by (rule ext, rule ext) (simp add: processType_refs)
  from built have "fold (\<lambda>name. fold (addDependency ?tn name) (?refs name)) ord2 (adj0, grau0) = (adj, grau)"
    by (simp add: buildGraph_def case_prod_beta names2 init procs)
  from graph_fold[OF this dist2] have
    a: "\<And>d e. count_list (adjOf adj d) e = count_list (adjOf adj0 d) e +
            (if e \<in> set ord2 \<and> map_of ?tn d \<noteq> None then count_list (?refs e) d else 0)"
    and g: "\<And>m. grauOf grau m = grauOf grau0 m +
            (if m \<in> set ord2
             then int (length (filter (\<lambda>d. map_of ?tn d \<noteq> None) (?refs m))) else 0)"
    and k: "fst ` set grau \<subseteq> fst ` set grau0 \<union> set ord2"
    and k': "fst ` set grau0 \<subseteq> fst ` set grau"
    by blast+
  have count: "count_list (adjOf adj d) e =
      (if e \<in> declared rawTypes \<and> d \<in> declared rawTypes then count_list (?refs e) d else 0)" for d e
    by (simp add: a adj0 set2 typeNames_Some typeNames_None)
  have in_decl: "set (adjOf adj d) \<subseteq> declared rawTypes" for d
  proof
    fix e assume "e \<in> set (adjOf adj d)"
    then have "count_list (adjOf adj d) e \<noteq> 0" by (simp add: count_list_0_iff)
    then show "e \<in> declared rawTypes" by (simp add: count split: if_splits)
  qed
  show "graph_ok (declared rawTypes) (predsOf rawTypes) adj"
    unfolding graph_ok_def
    using in_decl by (auto simp: count predsOf_def count_list_filter)
  show "\<forall>n \<in> declared rawTypes. grauOf grau n = int (length (predsOf rawTypes n))"
    by (simp add: g grau0 set2 predsOf_def typeNames_Some typeNames_None)
  from k k' keys0 set2 show "fst ` set grau = declared rawTypes" by auto
qed

section \<open>Dependency sort: the queue loop\<close>

lemma relax_apply:
  "relax neighbor (fila, grau) =
     (if grauOf grau neighbor = 1 then fila @ [neighbor] else fila,
      AList.update neighbor (grauOf grau neighbor - 1) grau)"
  by (simp add: relax_def Let_def grauOf_update)

lemma fold_relax:
  "fold relax ns (fila, grau) = (fila', grau') \<Longrightarrow>
     (\<forall>n. grauOf grau' n = grauOf grau n - int (count_list ns n)) \<and>
     (\<exists>new. fila' = fila @ new \<and> distinct new \<and>
        set new = {n \<in> set ns. 1 \<le> grauOf grau n \<and> grauOf grau n \<le> int (count_list ns n)})"
proof (induction ns arbitrary: fila grau)
  case Nil
  then show ?case by simp
next
  case (Cons x ns)
  let ?fila1 = "if grauOf grau x = 1 then fila @ [x] else fila"
  let ?grau1 = "AList.update x (grauOf grau x - 1) grau"
  from Cons.prems have "fold relax ns (?fila1, ?grau1) = (fila', grau')"
    by (simp add: relax_apply)
  from Cons.IH[OF this] obtain new1 where
    g: "\<And>n. grauOf grau' n = grauOf ?grau1 n - int (count_list ns n)"
    and f: "fila' = ?fila1 @ new1" and d: "distinct new1"
    and s: "set new1 = {n \<in> set ns. 1 \<le> grauOf ?grau1 n \<and> grauOf ?grau1 n \<le> int (count_list ns n)}"
    by blast
  have degrees: "\<forall>n. grauOf grau' n = grauOf grau n - int (count_list (x # ns) n)"
    by (simp add: g grauOf_update)
  show ?case
  proof (cases "grauOf grau x = 1")
    case True
    have "x \<notin> set new1" using True by (simp add: s grauOf_update)
    with d have "distinct (x # new1)" by simp
    moreover have "fila' = fila @ (x # new1)" using f True by simp
    moreover have "set (x # new1) =
        {n \<in> set (x # ns). 1 \<le> grauOf grau n \<and> grauOf grau n \<le> int (count_list (x # ns) n)}"
      using True by (auto simp: s grauOf_update)
    ultimately show ?thesis using degrees by blast
  next
    case False
    have "fila' = fila @ new1" using f False by simp
    moreover have "set new1 =
        {n \<in> set (x # ns). 1 \<le> grauOf grau n \<and> grauOf grau n \<le> int (count_list (x # ns) n)}"
    proof (rule set_eqI)
      fix n
      show "n \<in> set new1 \<longleftrightarrow>
        n \<in> {n \<in> set (x # ns). 1 \<le> grauOf grau n \<and> grauOf grau n \<le> int (count_list (x # ns) n)}"
      proof (cases "n = x")
        case True
        have "x \<in> set ns" if "1 \<le> int (count_list ns x)"
          using that by (cases "x \<in> set ns") simp_all
        then show ?thesis using True False by (auto simp: s grauOf_update)
      next
        case False
        then show ?thesis by (auto simp: s grauOf_update)
      qed
    qed
    ultimately show ?thesis using degrees d by blast
  qed
qed

lemma filter_not_in_snoc:
  "cur \<notin> set out \<Longrightarrow>
   length (filter (\<lambda>d. d \<notin> set out) ps)
     = length (filter (\<lambda>d. d \<notin> set (out @ [cur])) ps) + count_list ps cur"
  by (induction ps) auto

lemma kahn_step:
  assumes inv: "kahn_inv V preds out (cur # fila) grau"
    and graph: "graph_ok V preds adj"
    and run: "fold relax (adjOf adj cur) (fila, grau) = (fila', grau')"
  shows "kahn_inv V preds (out @ [cur]) fila' grau'"
proof -
  let ?ns = "adjOf adj cur"
  from inv have dist: "distinct (out @ cur # fila)" and sub: "set (out @ cur # fila) \<subseteq> V"
    and deg: "\<And>n. n \<in> V \<Longrightarrow> grauOf grau n = int (length (filter (\<lambda>d. d \<notin> set out) (preds n)))"
    and zero: "\<And>n. n \<in> V \<Longrightarrow> n \<in> set (out @ cur # fila) \<longleftrightarrow> grauOf grau n = 0"
    and ord: "\<And>i. i < length out \<Longrightarrow> set (preds (out ! i)) \<subseteq> set (take i out)"
    by (simp_all add: kahn_inv_def)
  from dist sub have cur: "cur \<in> V" "cur \<notin> set out" by auto
  from graph have cnt: "\<And>n. n \<in> V \<Longrightarrow> count_list ?ns n = count_list (preds n) cur"
    and nsV: "set ?ns \<subseteq> V"
    by (simp_all add: graph_ok_def)
  from fold_relax[OF run] obtain new where
    deg': "\<And>n. grauOf grau' n = grauOf grau n - int (count_list ?ns n)"
    and fila': "fila' = fila @ new" and dnew: "distinct new"
    and snew: "set new = {n \<in> set ?ns. 1 \<le> grauOf grau n \<and> grauOf grau n \<le> int (count_list ?ns n)}"
    by blast
  have newdeg: "grauOf grau' n = int (length (filter (\<lambda>d. d \<notin> set (out @ [cur])) (preds n)))"
    if "n \<in> V" for n
    using filter_not_in_snoc[OF cur(2), of "preds n"] deg[OF that] cnt[OF that] deg'[of n]
    by simp
  have newV: "set new \<subseteq> V" using snew nsV by auto
  have fresh: "n \<notin> set (out @ cur # fila)" if "n \<in> set new" for n
  proof -
    from that snew have "1 \<le> grauOf grau n" by simp
    moreover from that newV have "n \<in> V" by auto
    ultimately show ?thesis using zero[of n] by auto
  qed
  have d1: "distinct ((out @ [cur]) @ fila')"
    using dist dnew fresh by (auto simp: fila')
  have d2: "set ((out @ [cur]) @ fila') \<subseteq> V"
    using sub newV by (auto simp: fila')
  have d4: "n \<in> set ((out @ [cur]) @ fila') \<longleftrightarrow> grauOf grau' n = 0" if n: "n \<in> V" for n
  proof
    assume "n \<in> set ((out @ [cur]) @ fila')"
    then have "n \<in> set (out @ cur # fila) \<or> n \<in> set new" by (auto simp: fila')
    then have "grauOf grau' n \<le> 0"
    proof
      assume "n \<in> set (out @ cur # fila)"
      with zero[OF n] have "grauOf grau n = 0" by simp
      with deg'[of n] show ?thesis by simp
    next
      assume "n \<in> set new"
      with snew have "grauOf grau n \<le> int (count_list ?ns n)" by simp
      with deg'[of n] show ?thesis by simp
    qed
    with newdeg[OF n] show "grauOf grau' n = 0" by simp
  next
    assume z: "grauOf grau' n = 0"
    show "n \<in> set ((out @ [cur]) @ fila')"
    proof (cases "grauOf grau n = 0")
      case True
      with zero[OF n] show ?thesis by (auto simp: fila')
    next
      case False
      moreover have "0 \<le> grauOf grau n" using deg[OF n] by simp
      ultimately have pos: "1 \<le> grauOf grau n" by linarith
      from z deg'[of n] have eq: "grauOf grau n = int (count_list ?ns n)" by simp
      with pos have "n \<in> set ?ns" by (cases "n \<in> set ?ns") simp_all
      with pos eq snew have "n \<in> set new" by simp
      then show ?thesis by (simp add: fila')
    qed
  qed
  have d5: "set (preds ((out @ [cur]) ! i)) \<subseteq> set (take i (out @ [cur]))"
    if "i < length (out @ [cur])" for i
  proof (cases "i < length out")
    case True
    with ord[OF True] show ?thesis by (simp add: nth_append)
  next
    case False
    with that have i: "i = length out" by simp
    from zero[OF cur(1)] have "grauOf grau cur = 0" by simp
    with deg[OF cur(1)] have "filter (\<lambda>d. d \<notin> set out) (preds cur) = []" by simp
    then have "set (preds cur) \<subseteq> set out" by (auto simp: filter_empty_conv)
    then show ?thesis by (simp add: i)
  qed
  show ?thesis
    unfolding kahn_inv_def using d1 d2 newdeg d4 d5 by blast
qed

lemma kahnLoop_inv:
  "graph_ok V preds adj \<Longrightarrow> kahn_inv V preds out fila grau \<Longrightarrow>
   sortedTypes = map (defOf defs) out \<Longrightarrow>
     \<exists>out' grau'. kahnLoop defs adj fila sortedTypes grau = map (defOf defs) out' \<and>
        kahn_inv V preds out' [] grau'"
proof (induction defs adj fila sortedTypes grau arbitrary: out rule: kahnLoop.induct)
  case (1 typeDefinitions adjacencia sortedTypes grauEntrada)
  then show ?case by auto
next
  case (2 typeDefinitions adjacencia currentName fila sortedTypes grauEntrada)
  obtain fila' grau' where run:
    "fold relax (adjOf adjacencia currentName) (fila, grauEntrada) = (fila', grau')"
    by (cases "fold relax (adjOf adjacencia currentName) (fila, grauEntrada)")
  have step: "kahn_inv V preds (out @ [currentName]) fila' grau'"
    by (rule kahn_step[OF "2.prems"(2) "2.prems"(1) run])
  have "sortedTypes @ [defOf typeDefinitions currentName]
          = map (defOf typeDefinitions) (out @ [currentName])"
    using "2.prems"(3) by simp
  from "2.IH"[OF "2.prems"(1) _ this] step run show ?case by simp
qed

lemma seedQueue_range:
  "seedQueue (range_map ord m) = filter (\<lambda>k. map_of m k = Some 0) ord"
  by (induction ord) (auto simp: seedQueue_def range_map_Cons range_map_Nil split: option.splits)

lemma grauOf_key: "n \<in> fst ` set grau \<Longrightarrow> map_of grau n = Some 0 \<longleftrightarrow> grauOf grau n = 0"
proof -
  assume "n \<in> fst ` set grau"
  then obtain v where "map_of grau n = Some v"
    by (cases "map_of grau n") (auto simp: map_of_eq_None_iff)
  then show ?thesis by (simp add: grauOf_def)
qed

lemma sortedTypesOf_names:
  assumes ok: "sort_orders_ok ord1 ord2 ord3 rawTypes"
  shows "\<exists>out grau. sortedTypesOf ord1 ord2 ord3 rawTypes
                       = map (defOf (fst (collectTypes rawTypes))) out \<and>
           kahn_inv (declared rawTypes) (predsOf rawTypes) out [] grau \<and>
           (\<forall>e \<in> declared rawTypes. set (predsOf rawTypes e) \<subseteq> declared rawTypes)"
proof -
  obtain adj grau where built: "buildGraph ord1 ord2 rawTypes = (adj, grau)"
    by (cases "buildGraph ord1 ord2 rawTypes")
  from ok have o1: "visits ord1 (snd (collectTypes rawTypes))"
    and o2: "visits ord2 (snd (collectTypes rawTypes))"
    and o3: "visits ord3 grau"
    by (simp_all add: sort_orders_ok_def built)
  note facts = buildGraph_facts[OF o1 o2 built]
  from o3 facts(3) have d3: "distinct ord3" and s3: "set ord3 = declared rawTypes"
    by (simp_all add: visits_def)
  let ?fila = "seedQueue (range_map ord3 grau)"
  have fila: "?fila = filter (\<lambda>k. map_of grau k = Some 0) ord3" by (rule seedQueue_range)
  have zero: "n \<in> set ?fila \<longleftrightarrow> grauOf grau n = 0" if "n \<in> declared rawTypes" for n
    using that grauOf_key[of n grau] by (simp add: fila s3 facts(3))
  have "kahn_inv (declared rawTypes) (predsOf rawTypes) [] ?fila grau"
    unfolding kahn_inv_def using facts(2) zero d3 s3 by (auto simp: fila)
  from kahnLoop_inv[OF facts(1) this, of "[]" "fst (collectTypes rawTypes)"]
  obtain out grau' where
    "kahnLoop (fst (collectTypes rawTypes)) adj ?fila [] grau
       = map (defOf (fst (collectTypes rawTypes))) out"
    "kahn_inv (declared rawTypes) (predsOf rawTypes) out [] grau'"
    by auto
  moreover have "\<forall>e \<in> declared rawTypes. set (predsOf rawTypes e) \<subseteq> declared rawTypes"
    using facts(1) by (simp add: graph_ok_def)
  ultimately show ?thesis
    by (auto simp: sortedTypesOf_def built)
qed

lemma position_nth:
  assumes "distinct xs" "i < length xs"
  shows "length (takeWhile (\<lambda>x. x \<noteq> xs ! i) xs) = i"
proof -
  let ?j = "length (takeWhile (\<lambda>x. x \<noteq> xs ! i) xs)"
  have "?j < length xs"
  proof (rule ccontr)
    assume "\<not> ?j < length xs"
    with length_takeWhile_le[of "\<lambda>x. x \<noteq> xs ! i" xs] have "?j = length xs" by simp
    then have "takeWhile (\<lambda>x. x \<noteq> xs ! i) xs = xs"
      using takeWhile_eq_take[of "\<lambda>x. x \<noteq> xs ! i" xs] by simp
    then have "\<forall>x \<in> set xs. x \<noteq> xs ! i" by simp
    with nth_mem[OF assms(2)] show False by blast
  qed
  moreover from nth_length_takeWhile[OF this] have "xs ! ?j = xs ! i" by simp
  ultimately show ?thesis using assms by (simp add: nth_eq_iff_index_eq)
qed

lemma final_order:
  assumes inv: "kahn_inv V preds out [] grau" and e: "e \<in> set out" and d: "d \<in> set (preds e)"
  shows "before out d e"
proof -
  from e obtain j where j: "j < length out" "out ! j = e" by (auto simp: in_set_conv_nth)
  from inv j(1) have "set (preds (out ! j)) \<subseteq> set (take j out)" by (simp add: kahn_inv_def)
  with d j(2) have "d \<in> set (take j out)" by auto
  then obtain i where "i < length (take j out)" "take j out ! i = d"
    by (auto simp: in_set_conv_nth)
  with j show ?thesis unfolding before_def by (intro exI[of _ i] exI[of _ j]) simp
qed

lemma final_missing:
  assumes inv: "kahn_inv V preds out [] grau" and n: "n \<in> V" "n \<notin> set out"
  shows "\<exists>d \<in> set (preds n). d \<notin> set out"
proof -
  from inv n have "grauOf grau n \<noteq> 0"
    and "grauOf grau n = int (length (filter (\<lambda>d. d \<notin> set out) (preds n)))"
    by (simp_all add: kahn_inv_def)
  then have "filter (\<lambda>d. d \<notin> set out) (preds n) \<noteq> []" by auto
  then show ?thesis by (auto simp: filter_empty_conv)
qed

lemma kahn_result:
  assumes ok: "sort_orders_ok ord1 ord2 ord3 rawTypes"
  shows "\<exists>out. sortedTypesOf ord1 ord2 ord3 rawTypes
                  = map (defOf (fst (collectTypes rawTypes))) out \<and>
           distinct out \<and> set out \<subseteq> declared rawTypes \<and>
           (\<forall>e \<in> set out. \<forall>d \<in> set (predsOf rawTypes e). before out d e) \<and>
           (\<forall>n \<in> declared rawTypes. n \<notin> set out \<longrightarrow>
              (\<exists>d \<in> set (predsOf rawTypes n). d \<in> declared rawTypes \<and> d \<notin> set out))"
proof -
  from sortedTypesOf_names[OF ok] obtain out grau where
    run: "sortedTypesOf ord1 ord2 ord3 rawTypes = map (defOf (fst (collectTypes rawTypes))) out"
    and inv: "kahn_inv (declared rawTypes) (predsOf rawTypes) out [] grau"
    and closed: "\<forall>e \<in> declared rawTypes. set (predsOf rawTypes e) \<subseteq> declared rawTypes"
    by blast
  from inv have "distinct out" "set out \<subseteq> declared rawTypes" by (simp_all add: kahn_inv_def)
  moreover have "\<forall>e \<in> set out. \<forall>d \<in> set (predsOf rawTypes e). before out d e"
    using final_order[OF inv] by blast
  moreover have "\<forall>n \<in> declared rawTypes. n \<notin> set out \<longrightarrow>
              (\<exists>d \<in> set (predsOf rawTypes n). d \<in> declared rawTypes \<and> d \<notin> set out)"
    using final_missing[OF inv] closed by blast
  ultimately show ?thesis using run by blast
qed

lemma declared_image: "Some ` declared ts = set (map nameOf ts) - {None}"
proof (rule set_eqI)
  fix x :: "string option"
  show "x \<in> Some ` declared ts \<longleftrightarrow> x \<in> set (map nameOf ts) - {None}"
  proof (cases x)
    case None
    then show ?thesis by auto
  next
    case (Some n)
    have "n \<in> declared ts \<longleftrightarrow> Some n \<in> nameOf ` set ts"
      unfolding declared_def by force
    with Some show ?thesis by auto
  qed
qed

lemma finite_declared: "finite (declared ts)"
proof -
  have "finite (Some ` declared ts)" unfolding declared_image by simp
  then show ?thesis by (rule finite_imageD) simp
qed

lemma card_declared: "card (declared ts) = card (set (map nameOf ts) - {None})"
proof -
  have "card (Some ` declared ts) = card (declared ts)" by (rule card_image) simp
  then show ?thesis by (simp add: declared_image)
qed

lemma card_declared_le: "card (declared ts) \<le> length ts"
proof -
  have "card (set (map nameOf ts) - {None}) \<le> card (set (map nameOf ts))"
    by (rule card_mono) auto
  also have "\<dots> \<le> length (map nameOf ts)" by (rule card_length)
  finally show ?thesis by (simp add: card_declared)
qed

lemma card_declared_full:
  assumes "card (declared ts) = length ts"
  shows "distinct (map nameOf ts)" and "\<forall>t \<in> set ts. nameOf t \<noteq> None"
proof -
  have le1: "card (set (map nameOf ts) - {None}) \<le> card (set (map nameOf ts))"
    by (rule card_mono) auto
  have le2: "card (set (map nameOf ts)) \<le> length (map nameOf ts)" by (rule card_length)
  from assms le1 le2 have full: "card (set (map nameOf ts)) = length (map nameOf ts)"
    and same: "card (set (map nameOf ts) - {None}) = card (set (map nameOf ts))"
    by (simp_all add: card_declared)
  from full show "distinct (map nameOf ts)" by (rule card_distinct)
  have "None \<notin> set (map nameOf ts)"
  proof
    assume "None \<in> set (map nameOf ts)"
    then have "card (set (map nameOf ts) - {None}) < card (set (map nameOf ts))"
      by (intro card_Diff1_less) simp_all
    with same show False by simp
  qed
  then show "\<forall>t \<in> set ts. nameOf t \<noteq> None"
  proof (intro ballI)
    fix t assume "t \<in> set ts"
    then have "nameOf t \<in> set (map nameOf ts)" by simp
    with \<open>None \<notin> set (map nameOf ts)\<close> show "nameOf t \<noteq> None" by metis
  qed
qed

lemma card_declared_wellformed:
  assumes "distinct (map nameOf ts)" "\<forall>t \<in> set ts. nameOf t \<noteq> None"
  shows "card (declared ts) = length ts"
proof -
  have "None \<notin> set (map nameOf ts)"
  proof
    assume "None \<in> set (map nameOf ts)"
    then obtain t where "t \<in> set ts" "nameOf t = None" by (auto simp: image_iff)
    with assms(2) show False by blast
  qed
  then have "set (map nameOf ts) - {None} = set (map nameOf ts)" by simp
  with distinct_card[OF assms(1)] show ?thesis by (simp add: card_declared)
qed

lemma defOf_entry:
  assumes "distinct (map nameOf ts)" "t \<in> set ts" "nameOf t = Some n"
  shows "defOf (fst (collectTypes ts)) n = t"
proof -
  from assms(2,3) have "n \<in> declared ts" by (auto simp: declared_def)
  from typeDefinitions_declared[OF this] have
    "defOf (fst (collectTypes ts)) n \<in> set ts"
    "nameOf (defOf (fst (collectTypes ts)) n) = Some n"
    by simp_all
  moreover from assms(1) have inj: "inj_on nameOf (set ts)" by (simp add: distinct_map)
  ultimately show ?thesis
    using inj_onD[OF inj, of "defOf (fst (collectTypes ts)) n" t] assms(2,3) by simp
qed

lemma sorted_length_le:
  assumes ok: "sort_orders_ok ord1 ord2 ord3 rawTypes"
  shows "length (sortedTypesOf ord1 ord2 ord3 rawTypes) \<le> length rawTypes"
proof -
  from kahn_result[OF ok] obtain out where
    run: "sortedTypesOf ord1 ord2 ord3 rawTypes = map (defOf (fst (collectTypes rawTypes))) out"
    and d: "distinct out" and s: "set out \<subseteq> declared rawTypes"
    by blast
  from d have "length out = card (set out)" by (simp add: distinct_card)
  also from s have "\<dots> \<le> card (declared rawTypes)" by (intro card_mono finite_declared)
  also have "\<dots> \<le> length rawTypes" by (rule card_declared_le)
  finally show ?thesis by (simp add: run)
qed

lemma sorted_full:
  assumes ok: "sort_orders_ok ord1 ord2 ord3 rawTypes"
    and full: "length (sortedTypesOf ord1 ord2 ord3 rawTypes) = length rawTypes"
  shows "\<exists>out. sortedTypesOf ord1 ord2 ord3 rawTypes
                  = map (defOf (fst (collectTypes rawTypes))) out \<and>
           distinct out \<and> set out = declared rawTypes \<and>
           (\<forall>e \<in> set out. \<forall>d \<in> set (predsOf rawTypes e). before out d e) \<and>
           distinct (map nameOf rawTypes) \<and> (\<forall>t \<in> set rawTypes. nameOf t \<noteq> None)"
proof -
  from kahn_result[OF ok] obtain out where
    run: "sortedTypesOf ord1 ord2 ord3 rawTypes = map (defOf (fst (collectTypes rawTypes))) out"
    and d: "distinct out" and s: "set out \<subseteq> declared rawTypes"
    and order: "\<forall>e \<in> set out. \<forall>d \<in> set (predsOf rawTypes e). before out d e"
    by blast
  from d have len: "length out = card (set out)" by (simp add: distinct_card)
  from s have le1: "card (set out) \<le> card (declared rawTypes)"
    by (intro card_mono finite_declared)
  from full run len le1 card_declared_le[of rawTypes] have
    c1: "card (set out) = card (declared rawTypes)" and c2: "card (declared rawTypes) = length rawTypes"
    by simp_all
  from s c1 have "set out = declared rawTypes"
    by (intro card_subset_eq finite_declared)
  with run d order card_declared_full[OF c2] show ?thesis by blast
qed

lemma success_acyclic:
  assumes ok: "sort_orders_ok ord1 ord2 ord3 rawTypes"
    and full: "length (sortedTypesOf ord1 ord2 ord3 rawTypes) = length rawTypes"
  shows "acyclic (references rawTypes)"
proof -
  from sorted_full[OF ok full] obtain out where
    d: "distinct out" and s: "set out = declared rawTypes"
    and order: "\<forall>e \<in> set out. \<forall>d \<in> set (predsOf rawTypes e). before out d e"
    and names: "distinct (map nameOf rawTypes)"
    by blast
  define pos where "pos t = length (takeWhile (\<lambda>x. Some x \<noteq> nameOf t) out)" for t
  have "references rawTypes \<subseteq> measure pos"
  proof
    fix p assume p: "p \<in> references rawTypes"
    obtain A B where AB: "p = (A, B)" by (cases p)
    from p AB obtain a where A: "A \<in> set rawTypes" "nameOf A = Some a"
      and B: "B \<in> set rawTypes" and ref: "a \<in> set (typeRefs B)"
      by (auto simp: references_def)
    from A have a: "a \<in> declared rawTypes" by (auto simp: declared_def)
    from p AB have "\<exists>d. nameOf A = Some d \<and> d \<in> set (typeRefs B)" by (auto simp: references_def)
    have "\<exists>b. nameOf B = Some b \<and> b \<in> declared rawTypes"
    proof -
      from sorted_full[OF ok full] have "\<forall>t \<in> set rawTypes. nameOf t \<noteq> None" by blast
      with B obtain b where "nameOf B = Some b" by (cases "nameOf B") auto
      with B show ?thesis by (auto simp: declared_def)
    qed
    then obtain b where b: "nameOf B = Some b" "b \<in> declared rawTypes" by blast
    have "defOf (fst (collectTypes rawTypes)) b = B" by (rule defOf_entry[OF names B b(1)])
    with ref a have "a \<in> set (predsOf rawTypes b)" by (simp add: predsOf_def)
    with order b(2) s have "before out a b" by blast
    then obtain i j where ij: "i < j" "j < length out" "out ! i = a" "out ! j = b"
      by (auto simp: before_def)
    have "pos A = i"
      using position_nth[OF d, of i] ij by (simp add: pos_def A(2))
    moreover have "pos B = j"
      using position_nth[OF d, of j] ij by (simp add: pos_def b(1))
    ultimately show "p \<in> measure pos" using ij(1) AB by simp
  qed
  then have "wf (references rawTypes)" by (rule wf_subset[OF wf_measure])
  then show ?thesis by (rule wf_acyclic)
qed

lemma finite_references: "finite (references rawTypes)"
proof -
  have "references rawTypes \<subseteq> set rawTypes \<times> set rawTypes" by (auto simp: references_def)
  then show ?thesis by (rule finite_subset) simp
qed

lemma acyclic_complete:
  assumes ok: "sort_orders_ok ord1 ord2 ord3 rawTypes"
    and acyc: "acyclic (references rawTypes)"
  shows "\<exists>out. sortedTypesOf ord1 ord2 ord3 rawTypes
                  = map (defOf (fst (collectTypes rawTypes))) out \<and>
           distinct out \<and> set out = declared rawTypes \<and>
           (\<forall>e \<in> set out. \<forall>d \<in> set (predsOf rawTypes e). before out d e)"
proof -
  let ?D = "defOf (fst (collectTypes rawTypes))"
  from kahn_result[OF ok] obtain out where
    run: "sortedTypesOf ord1 ord2 ord3 rawTypes = map ?D out"
    and d: "distinct out" and s: "set out \<subseteq> declared rawTypes"
    and order: "\<forall>e \<in> set out. \<forall>d \<in> set (predsOf rawTypes e). before out d e"
    and missing: "\<forall>n \<in> declared rawTypes. n \<notin> set out \<longrightarrow>
              (\<exists>d \<in> set (predsOf rawTypes n). d \<in> declared rawTypes \<and> d \<notin> set out)"
    by blast
  have wf: "wf (references rawTypes)"
    by (rule finite_acyclic_wf[OF finite_references acyc])
  have "declared rawTypes \<subseteq> set out"
  proof (rule ccontr)
    assume "\<not> declared rawTypes \<subseteq> set out"
    then obtain n0 where n0: "n0 \<in> declared rawTypes" "n0 \<notin> set out" by blast
    let ?Q = "?D ` (declared rawTypes - set out)"
    from n0 have "?D n0 \<in> ?Q" by blast
    from wfE_min[OF wf this] obtain z where z: "z \<in> ?Q"
      and minimal: "\<And>y. (y, z) \<in> references rawTypes \<Longrightarrow> y \<notin> ?Q"
      by blast
    from z obtain n where n: "n \<in> declared rawTypes" "n \<notin> set out" "z = ?D n" by blast
    from missing n obtain p where p: "p \<in> set (predsOf rawTypes n)" "p \<in> declared rawTypes"
      "p \<notin> set out"
      by blast
    from typeDefinitions_declared[OF n(1)] typeDefinitions_declared[OF p(2)] p(1)
    have "(?D p, ?D n) \<in> references rawTypes"
      by (auto simp: references_def predsOf_def)
    from minimal[OF this[folded n(3)]] p show False by blast
  qed
  with s have "set out = declared rawTypes" by blast
  with run d order show ?thesis by blast
qed

section \<open>Dependency sort: results\<close>

text \<open>
  Claim C1, amended. For a document with a \<open>query\<close> entry whose \<open>types\<close> sequence
  holds typed entries with pairwise distinct names and an acyclic reference graph, the
  sort succeeds for every visiting order of its maps; the sorted sequence is a
  rearrangement of the declared entries, and whenever an entry \<open>E\<close> has a field or a field
  argument whose \<open>ofType\<close> names a declared entry \<open>D\<close>, \<open>D\<close> stands before \<open>E\<close>.
  A reference to a name that no entry declares is not in \<open>references\<close> and constrains
  nothing.
\<close>

theorem dependency_sort_topological:
  assumes types: "map_of s ''types'' = Some (Sequence rawTypes)"
    and query: "map_of s ''query'' = Some query"
    and named: "\<forall>t \<in> set rawTypes. nameOf t \<noteq> None"
    and names: "distinct (map nameOf rawTypes)"
    and acyc: "acyclic (references rawTypes)"
    and ok: "sort_orders_ok ord1 ord2 ord3 rawTypes"
  shows "\<exists>sortedTypes.
           sortTypesByDependency ord1 ord2 ord3 s
             = Inr [(''types'', Sequence sortedTypes), (''query'', query)] \<and>
           distinct sortedTypes \<and> set sortedTypes = set rawTypes \<and>
           length sortedTypes = length rawTypes \<and>
           (\<forall>D E. (D, E) \<in> references rawTypes \<longrightarrow> before sortedTypes D E)"
proof -
  let ?D = "defOf (fst (collectTypes rawTypes))"
  let ?sorted = "sortedTypesOf ord1 ord2 ord3 rawTypes"
  from acyclic_complete[OF ok acyc] obtain out where
    run: "?sorted = map ?D out" and d: "distinct out" and s: "set out = declared rawTypes"
    and order: "\<forall>e \<in> set out. \<forall>d \<in> set (predsOf rawTypes e). before out d e"
    by blast
  have entry: "?D n = t" if "t \<in> set rawTypes" "nameOf t = Some n" for t n
    by (rule defOf_entry[OF names that])
  have "length out = card (set out)" using distinct_card[OF d] by simp
  also have "\<dots> = card (declared rawTypes)" by (simp only: s)
  also have "\<dots> = length rawTypes" by (rule card_declared_wellformed[OF names named])
  finally have len: "length ?sorted = length rawTypes" by (simp add: run)
  then have result: "sortTypesByDependency ord1 ord2 ord3 s
             = Inr [(''types'', Sequence ?sorted), (''query'', query)]"
    using types query by (simp add: sortTypesByDependency_Inr)
  have inj: "inj_on ?D (set out)"
  proof (rule inj_onI)
    fix a b assume ab: "a \<in> set out" "b \<in> set out" and eq: "?D a = ?D b"
    from ab s have "a \<in> declared rawTypes" "b \<in> declared rawTypes" by simp_all
    then have "nameOf (?D a) = Some a" "nameOf (?D b) = Some b"
      by (simp_all add: typeDefinitions_declared)
    then have "Some a = Some b" by (simp only: eq)
    then show "a = b" by simp
  qed
  with d have dist: "distinct ?sorted" by (simp add: run distinct_map)
  have elems: "set ?sorted = set rawTypes"
  proof
    show "set ?sorted \<subseteq> set rawTypes"
      using s typeDefinitions_declared[of _ rawTypes] by (auto simp: run)
    show "set rawTypes \<subseteq> set ?sorted"
    proof
      fix t assume t: "t \<in> set rawTypes"
      with named obtain n where n: "nameOf t = Some n" by (cases "nameOf t") auto
      with t have "n \<in> declared rawTypes" by (auto simp: declared_def)
      with s entry[OF t n] show "t \<in> set ?sorted" by (auto simp: run image_iff)
    qed
  qed
  have "before ?sorted A B" if ref: "(A, B) \<in> references rawTypes" for A B
  proof -
    from ref obtain a where A: "A \<in> set rawTypes" "nameOf A = Some a"
      and B: "B \<in> set rawTypes" and use: "a \<in> set (typeRefs B)"
      by (auto simp: references_def)
    from named B obtain b where b: "nameOf B = Some b" by (cases "nameOf B") auto
    from A have a: "a \<in> declared rawTypes" by (auto simp: declared_def)
    from B b have b': "b \<in> declared rawTypes" by (auto simp: declared_def)
    from use a have "a \<in> set (predsOf rawTypes b)"
      by (simp add: predsOf_def entry[OF B b])
    with order b' s have "before out a b" by blast
    then obtain i j where ij: "i < j" "j < length out" "out ! i = a" "out ! j = b"
      by (auto simp: before_def)
    then have "?sorted ! i = A" "?sorted ! j = B" "j < length ?sorted"
      by (simp_all add: run entry[OF A] entry[OF B b])
    with ij(1) show ?thesis unfolding before_def by blast
  qed
  with result dist elems len show ?thesis by blast
qed

text \<open>
  Claim C1, as stated, fails: two entries with the same name form an acyclic graph (one
  node, no edge), and the sort answers with the cycle error, because it compares the
  number of sorted names with the number of entries.
\<close>

theorem dependency_sort_topological_counterexample:
  "map_of [(''types'', Sequence [typeA, typeA]), (''query'', Null)] ''query'' = Some Null \<and>
   acyclic (references [typeA, typeA]) \<and>
   sort_orders_ok [''A''] [''A''] [''A''] [typeA, typeA] \<and>
   sortTypesByDependency [''A''] [''A''] [''A'']
     [(''types'', Sequence [typeA, typeA]), (''query'', Null)] = Inl CircularDependency"
proof -
  have "references [typeA, typeA] = {}"
    by (auto simp: references_def typeRefs_def typeA_def)
  then have "acyclic (references [typeA, typeA])" by (simp add: acyclic_def)
  moreover have "sort_orders_ok [''A''] [''A''] [''A''] [typeA, typeA]" by code_simp
  moreover have "sortTypesByDependency [''A''] [''A''] [''A'']
     [(''types'', Sequence [typeA, typeA]), (''query'', Null)] = Inl CircularDependency"
    by code_simp
  ultimately show ?thesis by simp
qed

lemma sample_references: "references sample_types = {(typeB, typeC), (typeA, typeB)}"
  by (auto simp: references_def sample_types_def nameOf_def typeRefs_def fieldRefs_def argRefs_def
        typeA_def typeB_def typeC_def)

theorem dependency_sort_topological_witness:
  "map_of [(''types'', Sequence sample_types), (''query'', Number 1)] ''types''
     = Some (Sequence sample_types) \<and>
   map_of [(''types'', Sequence sample_types), (''query'', Number 1)] ''query'' = Some (Number 1) \<and>
   nameOf typeC \<noteq> None \<and> nameOf typeB \<noteq> None \<and> nameOf typeA \<noteq> None \<and>
   distinct (map nameOf sample_types) \<and>
   acyclic (references sample_types) \<and>
   sort_orders_ok [''A'', ''B'', ''C''] [''C'', ''B'', ''A''] [''C'', ''B'', ''A''] sample_types \<and>
   (typeB, typeC) \<in> references sample_types \<and>
   (\<exists>sortedTypes.
      sortTypesByDependency [''A'', ''B'', ''C''] [''C'', ''B'', ''A''] [''C'', ''B'', ''A'']
          [(''types'', Sequence sample_types), (''query'', Number 1)]
        = Inr [(''types'', Sequence sortedTypes), (''query'', Number 1)] \<and>
      distinct sortedTypes \<and> set sortedTypes = set sample_types \<and>
      length sortedTypes = length sample_types \<and>
      before sortedTypes typeB typeC)"
proof -
  have types: "map_of [(''types'', Sequence sample_types), (''query'', Number 1)] ''types''
     = Some (Sequence sample_types)"
    and query: "map_of [(''types'', Sequence sample_types), (''query'', Number 1)] ''query''
     = Some (Number 1)"
    by simp_all
  have n: "nameOf typeC \<noteq> None" "nameOf typeB \<noteq> None" "nameOf typeA \<noteq> None"
    by (simp_all add: nameOf_def typeA_def typeB_def typeC_def)
  then have named: "\<forall>t \<in> set sample_types. nameOf t \<noteq> None"
    by (simp add: sample_types_def)
  have names: "distinct (map nameOf sample_types)"
    by (simp add: sample_types_def nameOf_def typeA_def typeB_def typeC_def)
  have acyc: "acyclic (references sample_types)"
    unfolding sample_references
  proof -
    have distinct_entries: "typeA \<noteq> typeB" "typeC \<noteq> typeB" "typeC \<noteq> typeA"
      by (simp_all add: typeA_def typeB_def typeC_def)
    have "acyclic ({} :: (node \<times> node) set)" by (simp add: acyclic_def)
    with distinct_entries show "acyclic {(typeB, typeC), (typeA, typeB)}"
      by (simp add: rtrancl_insert)
  qed
  have ok: "sort_orders_ok [''A'', ''B'', ''C''] [''C'', ''B'', ''A''] [''C'', ''B'', ''A''] sample_types"
    by code_simp
  have edge: "(typeB, typeC) \<in> references sample_types"
    by (simp add: sample_references)
  from dependency_sort_topological[OF types query named names acyc ok] edge
  have "\<exists>sortedTypes.
      sortTypesByDependency [''A'', ''B'', ''C''] [''C'', ''B'', ''A''] [''C'', ''B'', ''A'']
          [(''types'', Sequence sample_types), (''query'', Number 1)]
        = Inr [(''types'', Sequence sortedTypes), (''query'', Number 1)] \<and>
      distinct sortedTypes \<and> set sortedTypes = set sample_types \<and>
      length sortedTypes = length sample_types \<and>
      before sortedTypes typeB typeC"
    by blast
  with types query n names acyc ok edge show ?thesis by simp
qed

text \<open>
  Claim C2. For a document with a \<open>types\<close> sequence and a \<open>query\<close> entry, a cycle among
  the declared entries makes the sort fail with the cyclic-dependency error, for every
  visiting order of its maps; that error is returned exactly when the queue loop emitted
  fewer entries than \<open>types\<close> holds; and a build in JSON mode that sorts such a document
  returns the error, not a shortened list.
\<close>

theorem cyclic_dependency_error:
  assumes types: "map_of s ''types'' = Some (Sequence rawTypes)"
    and query: "map_of s ''query'' = Some query"
    and ok: "sort_orders_ok (namesOrder1 env) (namesOrder2 env) (namesOrder3 env) rawTypes"
  shows "(\<not> acyclic (references rawTypes) \<longrightarrow>
            sortTypesByDependency (namesOrder1 env) (namesOrder2 env) (namesOrder3 env) s
              = Inl CircularDependency) \<and>
         (sortTypesByDependency (namesOrder1 env) (namesOrder2 env) (namesOrder3 env) s
              = Inl CircularDependency
            \<longleftrightarrow> length (sortedTypesOf (namesOrder1 env) (namesOrder2 env) (namesOrder3 env) rawTypes)
                  < length rawTypes) \<and>
         (\<not> acyclic (references rawTypes) \<and> \<not> YAMLRules opts \<and> SortByDependencies opts \<and>
          jsonPrefixes env opts (Prefixes opts) [] = Inr s
            \<longrightarrow> BuildConfigFromPrefixes env opts = Inl (SortFailed CircularDependency))"
proof -
  let ?sorted = "sortedTypesOf (namesOrder1 env) (namesOrder2 env) (namesOrder3 env) rawTypes"
  let ?sort = "sortTypesByDependency (namesOrder1 env) (namesOrder2 env) (namesOrder3 env) s"
  have le: "length ?sorted \<le> length rawTypes" by (rule sorted_length_le[OF ok])
  have exact: "?sort = Inl CircularDependency \<longleftrightarrow> length ?sorted < length rawTypes"
    using types query le by (auto simp: sortTypesByDependency_def Let_def)
  have cyclic: "?sort = Inl CircularDependency" if "\<not> acyclic (references rawTypes)"
  proof -
    from that success_acyclic[OF ok] have "length ?sorted \<noteq> length rawTypes" by blast
    with le exact show ?thesis by simp
  qed
  have "BuildConfigFromPrefixes env opts = Inl (SortFailed CircularDependency)"
    if "\<not> acyclic (references rawTypes) \<and> \<not> YAMLRules opts \<and> SortByDependencies opts \<and>
          jsonPrefixes env opts (Prefixes opts) [] = Inr s"
    using that cyclic by (simp add: BuildConfigFromPrefixes_def)
  with exact cyclic show ?thesis by blast
qed

theorem cyclic_dependency_error_witness:
  "map_of [(''types'', Sequence [typeB, typeA_needs_B]), (''query'', Number 1)] ''types''
     = Some (Sequence [typeB, typeA_needs_B]) \<and>
   map_of [(''types'', Sequence [typeB, typeA_needs_B]), (''query'', Number 1)] ''query''
     = Some (Number 1) \<and>
   sort_orders_ok (namesOrder1 sample_env) (namesOrder2 sample_env) (namesOrder3 sample_env)
     [typeB, typeA_needs_B] \<and>
   \<not> acyclic (references [typeB, typeA_needs_B]) \<and>
   \<not> YAMLRules (sample_options ''/app/cyclic'' True) \<and>
   SortByDependencies (sample_options ''/app/cyclic'' True) \<and>
   jsonPrefixes sample_env (sample_options ''/app/cyclic'' True)
       (Prefixes (sample_options ''/app/cyclic'' True)) []
     = Inr [(''types'', Sequence [typeB, typeA_needs_B]), (''query'', Number 1)] \<and>
   sortTypesByDependency (namesOrder1 sample_env) (namesOrder2 sample_env) (namesOrder3 sample_env)
       [(''types'', Sequence [typeB, typeA_needs_B]), (''query'', Number 1)]
     = Inl CircularDependency \<and>
   length (sortedTypesOf (namesOrder1 sample_env) (namesOrder2 sample_env) (namesOrder3 sample_env)
             [typeB, typeA_needs_B]) < length [typeB, typeA_needs_B] \<and>
   BuildConfigFromPrefixes sample_env (sample_options ''/app/cyclic'' True)
     = Inl (SortFailed CircularDependency)"
proof -
  let ?s = "[(''types'', Sequence [typeB, typeA_needs_B]), (''query'', Number 1)]"
  have types: "map_of ?s ''types'' = Some (Sequence [typeB, typeA_needs_B])"
    and query: "map_of ?s ''query'' = Some (Number 1)"
    by simp_all
  have ok: "sort_orders_ok (namesOrder1 sample_env) (namesOrder2 sample_env)
      (namesOrder3 sample_env) [typeB, typeA_needs_B]"
    by code_simp
  have e1: "(typeB, typeA_needs_B) \<in> references [typeB, typeA_needs_B]"
    by (simp add: references_def nameOf_def typeRefs_def fieldRefs_def typeB_def typeA_needs_B_def)
  have e2: "(typeA_needs_B, typeB) \<in> references [typeB, typeA_needs_B]"
    by (simp add: references_def nameOf_def typeRefs_def fieldRefs_def typeB_def typeA_needs_B_def)
  from e1 e2 have "(typeB, typeB) \<in> (references [typeB, typeA_needs_B])\<^sup>+"
    by (rule trancl_into_trancl[OF r_into_trancl])
  then have cyc: "\<not> acyclic (references [typeB, typeA_needs_B])"
    unfolding acyclic_def by blast
  have flags: "\<not> YAMLRules (sample_options ''/app/cyclic'' True)"
    "SortByDependencies (sample_options ''/app/cyclic'' True)"
    by (simp_all add: sample_options_def)
  have built: "jsonPrefixes sample_env (sample_options ''/app/cyclic'' True)
       (Prefixes (sample_options ''/app/cyclic'' True)) [] = Inr ?s"
    by code_simp
  from cyclic_dependency_error[OF types query ok, of "sample_options ''/app/cyclic'' True"]
    types query ok cyc flags built
  show ?thesis by blast
qed

end
